theory Spec2Isabelle
  imports Main "HOL-Library.Word"
begin

section \<open>binconvert: the layout descriptor compiler and the byte order converter\<close>

text \<open>
  The development embeds \<^verbatim>\<open>convert.py\<close>: \<^verbatim>\<open>gen_format_string\<close>, which compiles a list of
  \<^verbatim>\<open>pattern:count\<close> tokens into a format string of Python's \<^verbatim>\<open>struct\<close> module, and
  \<^verbatim>\<open>convert\<close>, which unpacks a file under one byte order and packs it under the other.

  The semantics is that of Python 2, for which the module was written: \<^verbatim>\<open>/\<close> on two
  integers is floor division (the docstring's own example, \<^verbatim>\<open>["i", "8s:*"]\<close> giving
  \<^verbatim>\<open>"i8s8s"\<close> at 20 bytes, needs it), and a file read in binary mode is a \<^verbatim>\<open>str\<close>.
  Python integers are \<^typ>\<open>int\<close>, format strings are \<^typ>\<open>string\<close>, file contents are
  lists of bytes. Every exception the code can raise is a value of \<open>error\<close>.
  Memory exhaustion and the interpreter's limit on object sizes are not modelled.
\<close>

subsection \<open>Errors\<close>

text \<open>
  The three errors that \<^verbatim>\<open>gen_format_string\<close> raises itself are all \<^verbatim>\<open>struct.error\<close> in
  the source and differ by message; they are told apart here by the line that raises
  them. \<open>StructError\<close> is a \<^verbatim>\<open>struct.error\<close> raised inside the \<^verbatim>\<open>struct\<close> module.
\<close>

datatype error =
    StructError
  | MultipleWildcards
  | DivisionError
  | SizeMismatch int int
  | IndexError
  | ValueError
  | ZeroDivisionError
  | FormatError
  | SystemError

type_synonym byte = "8 word"

subsection \<open>The string operations of Python that the code uses\<close>

text \<open>\<^verbatim>\<open>s.split(':')\<close>: the pieces between the colons, never an empty list.\<close>

fun split_colon :: "string \<Rightarrow> string list" where
  "split_colon [] = [[]]"
| "split_colon (c # cs) =
     (if c = CHR '':'' then [] # split_colon cs
      else (case split_colon cs of [] \<Rightarrow> [[c]] | x # xs \<Rightarrow> (c # x) # xs))"

definition is_digit :: "char \<Rightarrow> bool" where
  "is_digit c \<longleftrightarrow> c \<in> set ''0123456789''"

definition digit_val :: "char \<Rightarrow> nat" where
  "digit_val c = of_char c - 48"

definition isspace :: "char \<Rightarrow> bool" where
  "isspace c \<longleftrightarrow> c \<in> {CHR '' '', CHR 0x09, CHR 0x0A, CHR 0x0B, CHR 0x0C, CHR 0x0D}"

fun dec_value :: "nat \<Rightarrow> string \<Rightarrow> nat" where
  "dec_value acc [] = acc"
| "dec_value acc (c # cs) = dec_value (10 * acc + digit_val c) cs"

text \<open>
  \<^verbatim>\<open>int(s)\<close> on a string: surrounding white space is dropped, one sign is allowed, and
  what is left must be a non-empty run of decimal digits.
\<close>

definition py_int :: "string \<Rightarrow> error + int" where
  "py_int s =
     (let t = rev (dropWhile isspace (rev (dropWhile isspace s)))
      in case t of
           [] \<Rightarrow> Inl ValueError
         | c # cs \<Rightarrow>
             (let neg = (c = CHR ''-'');
                  ds = (if c = CHR ''-'' \<or> c = CHR ''+'' then cs else t)
              in if ds = [] \<or> \<not> list_all is_digit ds then Inl ValueError
                 else Inr ((if neg then - 1 else 1) * int (dec_value 0 ds))))"

text \<open>\<^verbatim>\<open>str(n)\<close> of an integer.\<close>

fun str_nat :: "nat \<Rightarrow> string" where
  "str_nat n =
     (if n < 10 then [char_of (48 + n)] else str_nat (n div 10) @ [char_of (48 + n mod 10)])"

declare str_nat.simps [simp del]

definition py_str :: "int \<Rightarrow> string" where
  "py_str i = (if i < 0 then CHR ''-'' # str_nat (nat (- i)) else str_nat (nat i))"

text \<open>\<^verbatim>\<open>count * pattern\<close> on a string: no copy at all for a count of zero or less.\<close>

definition py_repeat :: "int \<Rightarrow> string \<Rightarrow> string" where
  "py_repeat count pattern = concat (replicate (nat count) pattern)"

text \<open>\<^verbatim>\<open>s.replace('*', r)\<close>.\<close>

definition replace_star :: "string \<Rightarrow> string \<Rightarrow> string" where
  "replace_star r s = concat (map (\<lambda>c. if c = CHR ''*'' then r else [c]) s)"

text \<open>
  \<^verbatim>\<open>s.format(r)\<close> with one positional argument. Every \<^verbatim>\<open>{0}\<close> is replaced by the argument.
  The format strings that reach this call hold no other brace (each piece but the
  placeholder has been through \<^verbatim>\<open>struct.calcsize\<close>); for any other use of a brace the
  model answers \<^term>\<open>FormatError\<close> and does not follow Python's replacement-field grammar.
\<close>

function py_format :: "string \<Rightarrow> string \<Rightarrow> error + string" where
  "py_format s r =
     (if s = [] then Inr []
      else if take 3 s = ''{0}'' then
        (case py_format (drop 3 s) r of Inl e \<Rightarrow> Inl e | Inr t \<Rightarrow> Inr (r @ t))
      else if hd s = CHR ''{'' \<or> hd s = CHR ''}'' then Inl FormatError
      else (case py_format (tl s) r of Inl e \<Rightarrow> Inl e | Inr t \<Rightarrow> Inr (hd s # t)))"
  by pat_completeness auto
termination
  by (relation "measure (\<lambda>(s, r). length s)") auto

declare py_format.simps [simp del]

subsection \<open>The \<^verbatim>\<open>struct\<close> module: format strings and sizes\<close>

text \<open>
  A format string is an optional first character that selects byte order, sizes and
  alignment, then items: white space is skipped between items, an item is an optional
  decimal repeat count followed at once by a format character. A table gives the size
  and the alignment of each format character; alignment 0 means none.

  The standard table is the one of the prefixes \<^verbatim>\<open><\<close>, \<^verbatim>\<open>>\<close>, \<^verbatim>\<open>!\<close> and \<^verbatim>\<open>=\<close>. The native
  table, used without a prefix or with \<^verbatim>\<open>@\<close>, holds the sizes and alignments of the C
  compiler of the platform, so it is a field of \<open>platform\<close>, with the platform's
  byte order (\<^verbatim>\<open>sys.byteorder\<close>). The format characters are those of Python 2.7.

  Sizes are natural numbers without a bound: the module's refusal of a format whose
  size exceeds the largest index of the platform is outside the model, and so is a NUL
  character inside a format string.
\<close>

type_synonym table = "char \<Rightarrow> (nat \<times> nat) option"

record platform =
  native_table :: table
  byteorder :: string

definition standard_table :: table where
  "standard_table = map_of
     [(CHR ''x'', (1, 0)), (CHR ''c'', (1, 0)), (CHR ''b'', (1, 0)), (CHR ''B'', (1, 0)),
      (CHR ''?'', (1, 0)), (CHR ''h'', (2, 0)), (CHR ''H'', (2, 0)), (CHR ''i'', (4, 0)),
      (CHR ''I'', (4, 0)), (CHR ''l'', (4, 0)), (CHR ''L'', (4, 0)), (CHR ''q'', (8, 0)),
      (CHR ''Q'', (8, 0)), (CHR ''f'', (4, 0)), (CHR ''d'', (8, 0)), (CHR ''s'', (1, 0)),
      (CHR ''p'', (1, 0))]"

text \<open>The native table of the 64-bit Linux and macOS compilers on x86-64 (LP64).\<close>

definition lp64_table :: table where
  "lp64_table = map_of
     [(CHR ''x'', (1, 0)), (CHR ''c'', (1, 0)), (CHR ''b'', (1, 0)), (CHR ''B'', (1, 0)),
      (CHR ''?'', (1, 0)), (CHR ''h'', (2, 2)), (CHR ''H'', (2, 2)), (CHR ''i'', (4, 4)),
      (CHR ''I'', (4, 4)), (CHR ''l'', (8, 8)), (CHR ''L'', (8, 8)), (CHR ''q'', (8, 8)),
      (CHR ''Q'', (8, 8)), (CHR ''f'', (4, 4)), (CHR ''d'', (8, 8)), (CHR ''s'', (1, 0)),
      (CHR ''p'', (1, 0)), (CHR ''P'', (8, 8))]"

definition lp64 :: platform where
  "lp64 = \<lparr>native_table = lp64_table, byteorder = ''little''\<rparr>"

datatype endian = LittleEndian | BigEndian

text \<open>The first character of a format string: the table, the byte order and the rest.\<close>

definition whichtable :: "platform \<Rightarrow> string \<Rightarrow> table \<times> endian \<times> string" where
  "whichtable pf s =
     (let native = (if byteorder pf = ''little'' then LittleEndian else BigEndian)
      in case s of
           [] \<Rightarrow> (native_table pf, native, [])
         | c # cs \<Rightarrow>
             if c = CHR ''<'' then (standard_table, LittleEndian, cs)
             else if c = CHR ''>'' \<or> c = CHR ''!'' then (standard_table, BigEndian, cs)
             else if c = CHR ''='' then (standard_table, native, cs)
             else if c = CHR ''@'' then (native_table pf, native, cs)
             else (native_table pf, native, s))"

text \<open>
  The items of a format string, as pairs of repeat count and format character. The
  first argument is the repeat count read so far, if any digit has been read. A count
  with no character after it is an error; white space after a count is taken as the
  format character, which no table knows.
\<close>

fun items :: "nat option \<Rightarrow> string \<Rightarrow> error + (nat \<times> char) list" where
  "items None [] = Inr []"
| "items (Some n) [] = Inl StructError"
| "items acc (c # cs) =
     (if is_digit c then
        items (Some (10 * (case acc of None \<Rightarrow> 0 | Some n \<Rightarrow> n) + digit_val c)) cs
      else if acc = None \<and> isspace c then items None cs
      else (case items None cs of
              Inl e \<Rightarrow> Inl e
            | Inr r \<Rightarrow> Inr ((case acc of None \<Rightarrow> 1 | Some n \<Rightarrow> n, c) # r)))"

definition align :: "nat \<Rightarrow> nat \<Rightarrow> nat" where
  "align sz al =
     (if al \<noteq> 0 \<and> 0 < sz then ((sz + al - 1) div al) * al else sz)"

text \<open>
  The fields of a format, in order, each a format character with its size in bytes.
  The second argument is the size of the fields before. \<^verbatim>\<open>s\<close> and \<^verbatim>\<open>p\<close> with a count
  are one field of that many bytes, \<^verbatim>\<open>x\<close> with a count is that many pad bytes, every
  other character with a count is that many fields. The bytes skipped for alignment
  are pad bytes as well.
\<close>

fun prepare :: "table \<Rightarrow> nat \<Rightarrow> (nat \<times> char) list \<Rightarrow> error + (char \<times> nat) list" where
  "prepare t sz [] = Inr []"
| "prepare t sz ((num, c) # its) =
     (case t c of
        None \<Rightarrow> Inl StructError
      | Some (itemsize, al) \<Rightarrow>
          (let sz' = align sz al;
               pad = (if sz < sz' then [(CHR ''x'', sz' - sz)] else []);
               fs = (if c = CHR ''s'' \<or> c = CHR ''p'' \<or> c = CHR ''x''
                     then [(c, num * itemsize)] else replicate num (c, itemsize))
           in case prepare t (sz' + num * itemsize) its of
                Inl e \<Rightarrow> Inl e
              | Inr r \<Rightarrow> Inr (pad @ fs @ r)))"

definition total_size :: "(char \<times> nat) list \<Rightarrow> nat" where
  "total_size fs = sum_list (map snd fs)"

text \<open>The fields and the byte order of a whole format string.\<close>

definition compile_format :: "platform \<Rightarrow> string \<Rightarrow> error + (endian \<times> (char \<times> nat) list)" where
  "compile_format pf s =
     (case whichtable pf s of
        (t, e, rest) \<Rightarrow>
          (case items None rest of
             Inl err \<Rightarrow> Inl err
           | Inr its \<Rightarrow>
               (case prepare t 0 its of Inl err \<Rightarrow> Inl err | Inr fs \<Rightarrow> Inr (e, fs))))"

text \<open>\<^verbatim>\<open>struct.calcsize\<close>.\<close>

definition struct_calcsize :: "platform \<Rightarrow> string \<Rightarrow> error + nat" where
  "struct_calcsize pf s =
     (case compile_format pf s of Inl err \<Rightarrow> Inl err | Inr (e, fs) \<Rightarrow> Inr (total_size fs))"

subsection \<open>\<^verbatim>\<open>gen_format_string\<close>\<close>

text \<open>The variables of the loop over the tokens.\<close>

record scan_state =
  fmt :: string
  cumsize :: int
  special_pattern :: "string option"
  special_index :: "nat option"

definition scan_init :: scan_state where
  "scan_init = \<lparr>fmt = [], cumsize = 0, special_pattern = None, special_index = None\<rparr>"

text \<open>\<^verbatim>\<open>if special_pattern:\<close> is false for \<^verbatim>\<open>None\<close> and for the empty string.\<close>

definition truthy :: "string option \<Rightarrow> bool" where
  "truthy sp = (case sp of None \<Rightarrow> False | Some s \<Rightarrow> s \<noteq> [])"

text \<open>One turn of the loop, on the token at index \<open>i\<close> (lines 103 to 125).\<close>

definition scan_token :: "platform \<Rightarrow> scan_state \<Rightarrow> nat \<Rightarrow> string \<Rightarrow> error + scan_state" where
  "scan_token pf st i tok =
     (let pattern_info = split_colon tok;
          pattern = hd pattern_info
      in if length pattern_info = 1 then
           (case struct_calcsize pf pattern of
              Inl e \<Rightarrow> Inl e
            | Inr n \<Rightarrow> Inr (st\<lparr>fmt := fmt st @ pattern, cumsize := cumsize st + int n\<rparr>))
         else if pattern_info ! 1 = [] then Inl IndexError
         else if last (pattern_info ! 1) = CHR ''*'' then
           (if truthy (special_pattern st) then Inl MultipleWildcards
            else Inr (st\<lparr>fmt := fmt st @ ''{0}'',
                          special_pattern := Some pattern, special_index := Some i\<rparr>))
         else
           (case py_int (pattern_info ! 1) of
              Inl e \<Rightarrow> Inl e
            | Inr count \<Rightarrow>
                (let result = py_repeat count pattern
                 in case struct_calcsize pf result of
                      Inl e \<Rightarrow> Inl e
                    | Inr n \<Rightarrow> Inr (st\<lparr>fmt := fmt st @ result, cumsize := cumsize st + int n\<rparr>))))"

fun scan :: "platform \<Rightarrow> scan_state \<Rightarrow> nat \<Rightarrow> string list \<Rightarrow> error + scan_state" where
  "scan pf st i [] = Inr st"
| "scan pf st i (tok # toks) =
     (case scan_token pf st i tok of
        Inl e \<Rightarrow> Inl e
      | Inr st' \<Rightarrow> scan pf st' (Suc i) toks)"

text \<open>
  The final check (lines 150 to 156). \<^verbatim>\<open>if size and ...\<close> is false for \<^verbatim>\<open>None\<close> and for 0.
  The first component of the result is the caller's list \<^verbatim>\<open>formats\<close> as the call leaves
  it; the list returned is that same object.
\<close>

definition final_check ::
  "platform \<Rightarrow> string \<Rightarrow> int option \<Rightarrow> string list \<Rightarrow> string list \<times> (error + string \<times> string list)"
where
  "final_check pf f fsize formats =
     (case struct_calcsize pf (CHR ''='' # f) of
        Inl e \<Rightarrow> (formats, Inl e)
      | Inr fmt_size \<Rightarrow>
          (case fsize of
             None \<Rightarrow> (formats, Inr (f, formats))
           | Some sz \<Rightarrow>
               if sz \<noteq> 0 \<and> sz \<noteq> int fmt_size then (formats, Inl (SizeMismatch sz (int fmt_size)))
               else (formats, Inr (f, formats))))"

text \<open>
  \<^verbatim>\<open>gen_format_string(formats, size, expand)\<close>; the parameter \<^verbatim>\<open>size\<close> is \<open>fsize\<close> here. The assignment of line 148 writes into
  the list the caller passed, so the result is a pair: the caller's list after the
  call, and what the call returns or raises.
\<close>

definition gen_format_string ::
  "platform \<Rightarrow> string list \<Rightarrow> int option \<Rightarrow> bool \<Rightarrow> string list \<times> (error + string \<times> string list)"
where
  "gen_format_string pf formats fsize expand =
     (if formats = [''*''] then (formats, Inr (''*'', formats))
      else
        (case scan pf scan_init 0 formats of
           Inl e \<Rightarrow> (formats, Inl e)
         | Inr st \<Rightarrow>
             (case special_pattern st of
                None \<Rightarrow> final_check pf (fmt st) fsize formats
              | Some sp \<Rightarrow>
                  if sp = [] then final_check pf (fmt st) fsize formats
                  else
                    (case fsize of
                       None \<Rightarrow> (formats, Inr (fmt st, formats))
                     | Some sz \<Rightarrow>
                         (let remaining = sz - cumsize st
                          in case struct_calcsize pf sp of
                               Inl e \<Rightarrow> (formats, Inl e)
                             | Inr chunksize \<Rightarrow>
                                 if chunksize = 0 then (formats, Inl ZeroDivisionError)
                                 else
                                   (let count = remaining div int chunksize
                                    in if remaining mod int chunksize \<noteq> 0
                                       then (formats, Inl DivisionError)
                                       else
                                         (case py_format (fmt st) (py_repeat count sp) of
                                            Inl e \<Rightarrow> (formats, Inl e)
                                          | Inr f \<Rightarrow>
                                              (let formats' =
                                                 (if expand then
                                                    (case special_index st of
                                                       None \<Rightarrow> formats
                                                     | Some k \<Rightarrow>
                                                         formats[k := replace_star (py_str count) (formats ! k)])
                                                  else formats)
                                               in final_check pf f fsize formats'))))))))"

subsection \<open>The \<^verbatim>\<open>struct\<close> module: unpacking and packing\<close>

text \<open>
  The values that \<^verbatim>\<open>struct.unpack\<close> returns: integers, byte strings and booleans. A
  float is kept as the bit pattern it was read from, most significant byte first; the
  conversion through a C double, which can change the bits of a NaN, is not modelled,
  and no theorem below is about the formats \<^verbatim>\<open>f\<close> and \<^verbatim>\<open>d\<close>.
\<close>

datatype pyval = VInt int | VStr "byte list" | VBool bool | VFloat "byte list"

definition signed_code :: "char \<Rightarrow> bool" where
  "signed_code c \<longleftrightarrow> c \<in> set ''bhilq''"

definition unsigned_code :: "char \<Rightarrow> bool" where
  "unsigned_code c \<longleftrightarrow> c \<in> set ''BHILQP''"

fun le_value :: "byte list \<Rightarrow> nat" where
  "le_value [] = 0"
| "le_value (b # bs) = unat b + 256 * le_value bs"

primrec le_bytes :: "nat \<Rightarrow> nat \<Rightarrow> byte list" where
  "le_bytes 0 v = []"
| "le_bytes (Suc n) v = of_nat (v mod 256) # le_bytes n (v div 256)"

text \<open>From the byte order of a field to least significant byte first, and back.\<close>

definition to_le :: "endian \<Rightarrow> byte list \<Rightarrow> byte list" where
  "to_le e bs = (case e of LittleEndian \<Rightarrow> bs | BigEndian \<Rightarrow> rev bs)"

text \<open>
  One field, from its bytes. A pad byte gives no value. A Pascal string \<^verbatim>\<open>p\<close> keeps as
  many bytes as its first byte says and the field can hold; a field of size 0 has no
  first byte and the module raises \<^verbatim>\<open>SystemError\<close>.
\<close>

definition unpack_field :: "endian \<Rightarrow> char \<Rightarrow> byte list \<Rightarrow> error + pyval option" where
  "unpack_field e c chunk =
     (if c = CHR ''x'' then Inr None
      else if c = CHR ''c'' \<or> c = CHR ''s'' then Inr (Some (VStr chunk))
      else if c = CHR ''p'' then
        (case chunk of
           [] \<Rightarrow> Inl SystemError
         | b # bs \<Rightarrow> Inr (Some (VStr (take (min (unat b) (length bs)) bs))))
      else if c = CHR ''?'' then
        Inr (Some (VBool (case chunk of [] \<Rightarrow> False | b # bs \<Rightarrow> b \<noteq> 0)))
      else if signed_code c then
        (let v = le_value (to_le e chunk); n = length chunk
         in Inr (Some (VInt (if 2 ^ (8 * n - 1) \<le> v then int v - 2 ^ (8 * n) else int v))))
      else if unsigned_code c then Inr (Some (VInt (int (le_value (to_le e chunk)))))
      else Inr (Some (VFloat (rev (to_le e chunk)))))"

fun unpack_fields :: "endian \<Rightarrow> (char \<times> nat) list \<Rightarrow> byte list \<Rightarrow> error + pyval list" where
  "unpack_fields e [] bs = Inr []"
| "unpack_fields e ((c, n) # fs) bs =
     (case unpack_field e c (take n bs) of
        Inl err \<Rightarrow> Inl err
      | Inr v \<Rightarrow>
          (case unpack_fields e fs (drop n bs) of
             Inl err \<Rightarrow> Inl err
           | Inr vs \<Rightarrow> Inr (case v of None \<Rightarrow> vs | Some x \<Rightarrow> x # vs)))"

text \<open>\<^verbatim>\<open>struct.unpack(fmt, stream)\<close>: the length of the stream must be the size of the format.\<close>

definition struct_unpack :: "platform \<Rightarrow> string \<Rightarrow> byte list \<Rightarrow> error + pyval list" where
  "struct_unpack pf f stream =
     (case compile_format pf f of
        Inl err \<Rightarrow> Inl err
      | Inr (e, fs) \<Rightarrow>
          if length stream \<noteq> total_size fs then Inl StructError
          else unpack_fields e fs stream)"

text \<open>The integer that an integer format takes from a value; a boolean is 0 or 1.\<close>

definition as_index :: "pyval \<Rightarrow> int option" where
  "as_index v =
     (case v of VInt i \<Rightarrow> Some i | VBool b \<Rightarrow> Some (if b then 1 else 0) | _ \<Rightarrow> None)"

definition truth :: "pyval \<Rightarrow> bool" where
  "truth v =
     (case v of VInt i \<Rightarrow> i \<noteq> 0 | VBool b \<Rightarrow> b | VStr bs \<Rightarrow> bs \<noteq> [] | VFloat bs \<Rightarrow> True)"

text \<open>
  One field of \<open>n\<close> bytes, from its value. An integer out of the range of its format is
  refused; a byte string is cut or filled with zero bytes to the size of its field.
\<close>

definition pack_field :: "endian \<Rightarrow> char \<Rightarrow> nat \<Rightarrow> pyval \<Rightarrow> error + byte list" where
  "pack_field e c n v =
     (if c = CHR ''c'' then
        (case v of VStr [b] \<Rightarrow> Inr [b] | _ \<Rightarrow> Inl StructError)
      else if c = CHR ''s'' then
        (case v of
           VStr bs \<Rightarrow> Inr (take n bs @ replicate (n - length bs) 0)
         | _ \<Rightarrow> Inl StructError)
      else if c = CHR ''p'' then
        (case v of
           VStr bs \<Rightarrow>
             if n = 0 then Inr []
             else (let k = min (length bs) (n - 1)
                   in Inr (of_nat (min k 255) # take k bs @ replicate (n - 1 - k) 0))
         | _ \<Rightarrow> Inl StructError)
      else if c = CHR ''?'' then Inr [if truth v then 1 else 0]
      else if signed_code c then
        (case as_index v of
           None \<Rightarrow> Inl StructError
         | Some i \<Rightarrow>
             if - (2 ^ (8 * n - 1)) \<le> i \<and> i < 2 ^ (8 * n - 1)
             then Inr (to_le e (le_bytes n (nat (i mod 2 ^ (8 * n)))))
             else Inl StructError)
      else if unsigned_code c then
        (case as_index v of
           None \<Rightarrow> Inl StructError
         | Some i \<Rightarrow>
             if 0 \<le> i \<and> i < 2 ^ (8 * n)
             then Inr (to_le e (le_bytes n (nat i)))
             else Inl StructError)
      else
        (case v of
           VFloat bits \<Rightarrow> if length bits = n then Inr (to_le e (rev bits)) else Inl StructError
         | _ \<Rightarrow> Inl StructError))"

fun pack_fields :: "endian \<Rightarrow> (char \<times> nat) list \<Rightarrow> pyval list \<Rightarrow> error + byte list" where
  "pack_fields e [] vs = Inr []"
| "pack_fields e ((c, n) # fs) vs =
     (if c = CHR ''x'' then
        (case pack_fields e fs vs of Inl err \<Rightarrow> Inl err | Inr bs \<Rightarrow> Inr (replicate n 0 @ bs))
      else
        (case vs of
           [] \<Rightarrow> Inl StructError
         | v # vs' \<Rightarrow>
             (case pack_field e c n v of
                Inl err \<Rightarrow> Inl err
              | Inr b \<Rightarrow>
                  (case pack_fields e fs vs' of
                     Inl err \<Rightarrow> Inl err
                   | Inr bs \<Rightarrow> Inr (b @ bs)))))"

definition num_values :: "(char \<times> nat) list \<Rightarrow> nat" where
  "num_values fs = length (filter (\<lambda>f. fst f \<noteq> CHR ''x'') fs)"

text \<open>\<^verbatim>\<open>struct.pack(fmt, *values)\<close>: one value for each field that is not a pad byte.\<close>

definition struct_pack :: "platform \<Rightarrow> string \<Rightarrow> pyval list \<Rightarrow> error + byte list" where
  "struct_pack pf f vs =
     (case compile_format pf f of
        Inl err \<Rightarrow> Inl err
      | Inr (e, fs) \<Rightarrow>
          if length vs \<noteq> num_values fs then Inl StructError
          else pack_fields e fs vs)"

subsection \<open>\<^verbatim>\<open>convert\<close>\<close>

text \<open>
  The formats of the two stages (lines 211 to 216): \<^verbatim>\<open>byte_order\<close> is the order to
  convert to, the file is taken to be in the other one.
\<close>

definition stage_formats :: "string \<Rightarrow> string \<Rightarrow> string \<times> string" where
  "stage_formats byte_order f =
     (if byte_order = ''little'' then (CHR ''>'' # f, CHR ''<'' # f)
      else (CHR ''<'' # f, CHR ''>'' # f))"

text \<open>
  \<^verbatim>\<open>convert(source, destination, byte_order, fmt)\<close>, on the contents of the source file:
  the result is what is written to the destination. \<^verbatim>\<open>os.path.getsize(source)\<close> is the
  length of the contents.
\<close>

definition convert :: "platform \<Rightarrow> byte list \<Rightarrow> string option \<Rightarrow> string \<Rightarrow> error + byte list" where
  "convert pf stream byte_order f =
     (let f' = (if f = ''*'' then py_repeat (int (length stream)) ''c'' else f);
          order = (case byte_order of None \<Rightarrow> byteorder pf | Some b \<Rightarrow> b)
      in case stage_formats order f' of
           (fmt_in, fmt_out) \<Rightarrow>
             (case struct_unpack pf fmt_in stream of
                Inl err \<Rightarrow> Inl err
              | Inr data \<Rightarrow> struct_pack pf fmt_out data))"

section \<open>Notions used to state the properties\<close>

text \<open>
  A token is a wildcard token when the loop takes the branch of line 110: it has a
  count part, and the last character of the count part is \<^verbatim>\<open>*\<close>.
\<close>

definition is_wildcard :: "string \<Rightarrow> bool" where
  "is_wildcard tok \<longleftrightarrow>
     (let pattern_info = split_colon tok
      in length pattern_info \<noteq> 1 \<and> pattern_info ! 1 \<noteq> [] \<and> last (pattern_info ! 1) = CHR ''*'')"

definition pattern_of :: "string \<Rightarrow> string" where
  "pattern_of tok = hd (split_colon tok)"

text \<open>The count of a token that is no wildcard: 1 when there is no count part.\<close>

definition count_of :: "string \<Rightarrow> int" where
  "count_of tok =
     (let pattern_info = split_colon tok
      in if length pattern_info = 1 then 1
         else (case py_int (pattern_info ! 1) of Inl e \<Rightarrow> 0 | Inr n \<Rightarrow> n))"

text \<open>What a token that is no wildcard adds to the format string.\<close>

definition piece_of :: "string \<Rightarrow> string" where
  "piece_of tok = py_repeat (count_of tok) (pattern_of tok)"

text \<open>
  A token as the grammar of descriptors writes it: a pattern alone, or a pattern, a
  colon and a count in decimal digits. \<open>written_count\<close> is the count that the token
  states, 1 when it states none.
\<close>

definition written_count :: "nat option \<Rightarrow> nat" where
  "written_count c = (case c of None \<Rightarrow> 1 | Some n \<Rightarrow> n)"

definition render_token :: "string \<times> nat option \<Rightarrow> string" where
  "render_token t =
     (case snd t of None \<Rightarrow> fst t | Some n \<Rightarrow> fst t @ CHR '':'' # str_nat n)"

text \<open>
  A well-formed token: its pattern is not empty and the loop accepts the token on its
  own (the pattern is a format of the \<^verbatim>\<open>struct\<close> module, the count an integer).
\<close>

definition accepted :: "platform \<Rightarrow> string \<Rightarrow> bool" where
  "accepted pf tok \<longleftrightarrow>
     pattern_of tok \<noteq> [] \<and>
     (case scan_token pf scan_init 0 tok of Inl e \<Rightarrow> False | Inr st \<Rightarrow> True)"

text \<open>
  \<^verbatim>\<open>struct.calcsize('=' + s)\<close>, the size in standard mode, which depends on no platform,
  and the width of a pattern in that mode.
\<close>

definition standard_size :: "string \<Rightarrow> error + nat" where
  "standard_size s =
     (case items None s of
        Inl e \<Rightarrow> Inl e
      | Inr its \<Rightarrow>
          (case prepare standard_table 0 its of Inl e \<Rightarrow> Inl e | Inr fs \<Rightarrow> Inr (total_size fs)))"

definition width :: "string \<Rightarrow> nat" where
  "width p = (case standard_size p of Inl e \<Rightarrow> 0 | Inr n \<Rightarrow> n)"

text \<open>
  The size that the loop adds up for a token that is no wildcard, measured as the code
  does, in native mode; and a string whose size is the same in both modes.
\<close>

definition native_width :: "platform \<Rightarrow> string \<Rightarrow> int" where
  "native_width pf tok =
     (case struct_calcsize pf (piece_of tok) of Inl e \<Rightarrow> 0 | Inr n \<Rightarrow> int n)"

definition same_width :: "platform \<Rightarrow> string \<Rightarrow> bool" where
  "same_width pf s \<longleftrightarrow> struct_calcsize pf s = standard_size s"

text \<open>
  The fields of a format in standard mode, as both stages of \<^verbatim>\<open>convert\<close> compile it.
\<close>

definition standard_fields :: "string \<Rightarrow> error + (char \<times> nat) list" where
  "standard_fields s =
     (case items None s of Inl e \<Rightarrow> Inl e | Inr its \<Rightarrow> prepare standard_table 0 its)"

text \<open>
  The opaque fields are the characters \<^verbatim>\<open>c\<close> and the byte strings \<^verbatim>\<open>s\<close>; the numeric
  fields meant here are the integers. A plain format is made of these only: it has no
  pad byte, boolean, Pascal string or float.
\<close>

definition opaque_code :: "char \<Rightarrow> bool" where
  "opaque_code c \<longleftrightarrow> c = CHR ''c'' \<or> c = CHR ''s''"

definition integer_code :: "char \<Rightarrow> bool" where
  "integer_code c \<longleftrightarrow> c \<in> set ''bBhHiIlLqQ''"

definition opaque_format :: "string \<Rightarrow> bool" where
  "opaque_format s \<longleftrightarrow> (\<forall>ch\<in>set s. is_digit ch \<or> isspace ch \<or> opaque_code ch)"

definition plain_format :: "string \<Rightarrow> bool" where
  "plain_format s \<longleftrightarrow>
     (\<forall>ch\<in>set s. is_digit ch \<or> isspace ch \<or> opaque_code ch \<or> integer_code ch)"

text \<open>The fields that a plain format compiles to.\<close>

definition plain_field :: "char \<times> nat \<Rightarrow> bool" where
  "plain_field f \<longleftrightarrow>
     (fst f = CHR ''c'' \<and> snd f = 1) \<or> fst f = CHR ''s'' \<or> integer_code (fst f)"

text \<open>
  The byte order flip, field by field: the bytes of an opaque field stay as they are,
  the bytes of every other field are reversed.
\<close>

fun flip_fields :: "(char \<times> nat) list \<Rightarrow> byte list \<Rightarrow> byte list" where
  "flip_fields [] bs = []"
| "flip_fields ((c, n) # fs) bs =
     (if opaque_code c then take n bs else rev (take n bs)) @ flip_fields fs (drop n bs)"

text \<open>
  The byte orders of the two stages of \<^verbatim>\<open>convert\<close>, after \<^verbatim>\<open>byte_order\<close> has been given
  its default.
\<close>

definition resolved_order :: "platform \<Rightarrow> string option \<Rightarrow> string" where
  "resolved_order pf byte_order = (case byte_order of None \<Rightarrow> byteorder pf | Some b \<Rightarrow> b)"

definition unpack_order :: "platform \<Rightarrow> string option \<Rightarrow> endian" where
  "unpack_order pf byte_order =
     (if resolved_order pf byte_order = ''little'' then BigEndian else LittleEndian)"

definition pack_order :: "platform \<Rightarrow> string option \<Rightarrow> endian" where
  "pack_order pf byte_order =
     (if resolved_order pf byte_order = ''little'' then LittleEndian else BigEndian)"

section \<open>The loop over the tokens\<close>

lemma split_colon_not_Nil [simp]: "split_colon s \<noteq> []"
  by (induction s) (auto split: list.splits)

lemma split_colon_plain: "CHR '':'' \<notin> set s \<Longrightarrow> split_colon s = [s]"
  by (induction s) auto

lemma split_colon_append:
  "CHR '':'' \<notin> set p \<Longrightarrow> split_colon (p @ CHR '':'' # c) = p # split_colon c"
  by (induction p) (auto split: list.splits)

lemma is_wildcard_star [simp]: "\<not> is_wildcard ''*''"
  by (simp add: is_wildcard_def)

lemma scan_token_wildcard:
  assumes "is_wildcard tok"
  shows "scan_token pf st i tok =
           (if truthy (special_pattern st) then Inl MultipleWildcards
            else Inr (st\<lparr>fmt := fmt st @ ''{0}'',
                         special_pattern := Some (pattern_of tok), special_index := Some i\<rparr>))"
  using assms by (simp add: is_wildcard_def scan_token_def pattern_of_def Let_def)

lemma scan_token_fixed:
  assumes "\<not> is_wildcard tok" and "scan_token pf scan_init 0 tok = Inr s0"
  shows "scan_token pf st i tok =
           Inr (st\<lparr>fmt := fmt st @ fmt s0, cumsize := cumsize st + cumsize s0\<rparr>)"
  using assms
  by (auto simp: is_wildcard_def scan_token_def scan_init_def Let_def
           split: if_splits sum.splits)

text \<open>
  Once a wildcard with a pattern has been seen, the next wildcard token stops the loop,
  provided the tokens before it are well formed.
\<close>

lemma scan_second_wildcard:
  assumes "list_all (accepted pf) toks"
    and "(truthy (special_pattern st) \<and> 1 \<le> length (filter is_wildcard toks))
         \<or> 2 \<le> length (filter is_wildcard toks)"
  shows "scan pf st i toks = Inl MultipleWildcards"
  using assms
proof (induction toks arbitrary: st i)
  case Nil
  then show ?case by simp
next
  case (Cons tok toks)
  from Cons.prems(1) have acc: "accepted pf tok" and rest: "list_all (accepted pf) toks"
    by simp_all
  show ?case
  proof (cases "is_wildcard tok")
    case True
    show ?thesis
    proof (cases "truthy (special_pattern st)")
      case True
      with \<open>is_wildcard tok\<close> show ?thesis by (simp add: scan_token_wildcard)
    next
      case False
      let ?st = "st\<lparr>fmt := fmt st @ ''{0}'',
                     special_pattern := Some (pattern_of tok), special_index := Some i\<rparr>"
      from acc have "truthy (special_pattern ?st)" by (simp add: accepted_def truthy_def)
      moreover from Cons.prems(2) True False have "1 \<le> length (filter is_wildcard toks)"
        by simp
      ultimately have "scan pf ?st (Suc i) toks = Inl MultipleWildcards"
        using Cons.IH [OF rest] by blast
      with True False show ?thesis by (simp add: scan_token_wildcard)
    qed
  next
    case False
    from acc obtain s0 where s0: "scan_token pf scan_init 0 tok = Inr s0"
      by (auto simp: accepted_def split: sum.splits)
    let ?st = "st\<lparr>fmt := fmt st @ fmt s0, cumsize := cumsize st + cumsize s0\<rparr>"
    have "scan pf ?st (Suc i) toks = Inl MultipleWildcards"
      using Cons.IH [OF rest, of ?st] Cons.prems(2) False by simp
    with False s0 show ?thesis by (simp add: scan_token_fixed)
  qed
qed

section \<open>Sizes in standard mode\<close>

lemma struct_calcsize_standard: "struct_calcsize pf (CHR ''='' # s) = standard_size s"
  by (simp add: struct_calcsize_def compile_format_def whichtable_def standard_size_def Let_def
           split: sum.splits)

lemma items_last: "items acc s = Inr r \<Longrightarrow> s \<noteq> [] \<Longrightarrow> \<not> is_digit (last s)"
proof (induction s arbitrary: acc r)
  case Nil
  then show ?case by simp
next
  case (Cons c cs)
  show ?case
  proof (cases "cs = []")
    case True
    with Cons.prems show ?thesis by (auto split: if_splits)
  next
    case False
    with Cons.prems Cons.IH show ?thesis by (auto split: if_splits sum.splits)
  qed
qed

lemma items_append:
  "a \<noteq> [] \<Longrightarrow> \<not> is_digit (last a) \<Longrightarrow>
   items acc (a @ b) =
     (case items acc a of
        Inl e \<Rightarrow> Inl e
      | Inr ra \<Rightarrow> (case items None b of Inl e \<Rightarrow> Inl e | Inr rb \<Rightarrow> Inr (ra @ rb)))"
proof (induction a arbitrary: acc)
  case Nil
  then show ?case by simp
next
  case (Cons c a)
  show ?case
  proof (cases "a = []")
    case True
    with Cons.prems show ?thesis by (auto split: sum.splits)
  next
    case False
    with Cons.prems have "\<not> is_digit (last a)" by simp
    from Cons.IH [OF False this] show ?thesis by (auto split: sum.splits)
  qed
qed

lemma items_append_None:
  "a = [] \<or> \<not> is_digit (last a) \<Longrightarrow>
   items None (a @ b) =
     (case items None a of
        Inl e \<Rightarrow> Inl e
      | Inr ra \<Rightarrow> (case items None b of Inl e \<Rightarrow> Inl e | Inr rb \<Rightarrow> Inr (ra @ rb)))"
  by (cases "a = []") (auto simp: items_append split: sum.splits)

lemma standard_table_align: "standard_table c = Some (isz, al) \<Longrightarrow> al = 0"
  by (auto simp: standard_table_def split: if_splits)

lemma prepare_standard_shift: "prepare standard_table sz its = prepare standard_table 0 its"
proof (induction its arbitrary: sz)
  case Nil
  show ?case by simp
next
  case (Cons it its)
  obtain num c where it: "it = (num, c)" by (cases it)
  show ?case
  proof (cases "standard_table c")
    case None
    with it show ?thesis by simp
  next
    case (Some e)
    obtain isz al where e: "e = (isz, al)" by (cases e)
    with Some have "al = 0" by (simp add: standard_table_align)
    with it Some e Cons.IH [of "sz + num * isz"] Cons.IH [of "num * isz"]
    show ?thesis by (simp add: align_def Let_def)
  qed
qed

lemma prepare_standard_append:
  "prepare standard_table sz (a @ b) =
     (case prepare standard_table 0 a of
        Inl e \<Rightarrow> Inl e
      | Inr fa \<Rightarrow> (case prepare standard_table 0 b of Inl e \<Rightarrow> Inl e | Inr fb \<Rightarrow> Inr (fa @ fb)))"
proof (induction a arbitrary: sz)
  case Nil
  show ?case by (simp add: prepare_standard_shift [of sz b] split: sum.splits)
next
  case (Cons it a)
  obtain num c where it: "it = (num, c)" by (cases it)
  show ?case
  proof (cases "standard_table c")
    case None
    with it show ?thesis by simp
  next
    case (Some e)
    obtain isz al where e: "e = (isz, al)" by (cases e)
    with Some have "al = 0" by (simp add: standard_table_align)
    with it Some e Cons.IH [of "sz + num * isz"] prepare_standard_shift [of "num * isz" a]
    show ?thesis by (simp add: align_def Let_def split: sum.splits)
  qed
qed

lemma total_size_append [simp]: "total_size (a @ b) = total_size a + total_size b"
  by (simp add: total_size_def)

lemma items_error: "items acc s = Inl e \<Longrightarrow> e = StructError"
  by (induction acc s rule: items.induct) (auto split: if_splits sum.splits)

lemma prepare_error: "prepare t sz its = Inl e \<Longrightarrow> e = StructError"
  by (induction t sz its rule: prepare.induct) (auto simp: Let_def split: option.splits sum.splits)

lemma standard_size_error: "standard_size s = Inl e \<Longrightarrow> e = StructError"
  by (auto simp: standard_size_def split: sum.splits dest: items_error prepare_error)

lemma standard_size_append:
  "a = [] \<or> \<not> is_digit (last a) \<Longrightarrow>
   standard_size (a @ b) =
     (case standard_size a of
        Inl e \<Rightarrow> Inl e
      | Inr na \<Rightarrow> (case standard_size b of Inl e \<Rightarrow> Inl e | Inr nb \<Rightarrow> Inr (na + nb)))"
  by (auto simp: standard_size_def items_append_None prepare_standard_append
           split: sum.splits dest!: items_error prepare_error)

lemma standard_size_Nil [simp]: "standard_size [] = Inr 0"
  by (simp add: standard_size_def total_size_def)

lemma calcsize_last:
  assumes "struct_calcsize pf s = Inr n"
  shows "s = [] \<or> \<not> is_digit (last s)"
proof (cases s)
  case Nil
  then show ?thesis by simp
next
  case (Cons c cs)
  show ?thesis
  proof (cases "c \<in> set ''<>!=@''")
    case True
    then have nd: "\<not> is_digit c" by (auto simp: is_digit_def)
    from True assms Cons obtain r where "items None cs = Inr r"
      by (auto simp: struct_calcsize_def compile_format_def whichtable_def Let_def
               split: sum.splits if_splits)
    then have "cs = [] \<or> \<not> is_digit (last cs)" using items_last by blast
    with nd Cons show ?thesis by auto
  next
    case False
    with assms Cons obtain r where "items None s = Inr r"
      by (auto simp: struct_calcsize_def compile_format_def whichtable_def Let_def
               split: sum.splits if_splits)
    then show ?thesis using items_last by blast
  qed
qed

lemma standard_size_replicate:
  "p = [] \<or> \<not> is_digit (last p) \<Longrightarrow>
   standard_size (concat (replicate (Suc k) p)) =
     (case standard_size p of Inl e \<Rightarrow> Inl e | Inr w \<Rightarrow> Inr (Suc k * w))"
  by (induction k) (auto simp: standard_size_append split: sum.splits)

section \<open>Tokens with a fixed count\<close>

lemma py_repeat_one [simp]: "py_repeat 1 p = p"
  by (simp add: py_repeat_def)

lemma scan_token_fixed_piece:
  assumes "\<not> is_wildcard tok" and "scan_token pf st i tok = Inr st'"
  shows "\<exists>n. struct_calcsize pf (piece_of tok) = Inr n \<and>
             st' = st\<lparr>fmt := fmt st @ piece_of tok, cumsize := cumsize st + int n\<rparr>"
  using assms
  by (auto simp: is_wildcard_def scan_token_def piece_of_def count_of_def pattern_of_def Let_def
           split: if_splits sum.splits)

lemma scan_fixed:
  assumes "list_all (\<lambda>tok. \<not> is_wildcard tok) toks" and "scan pf st i toks = Inr st'"
  shows "st' = st\<lparr>fmt := fmt st @ concat (map piece_of toks),
                   cumsize := cumsize st + sum_list (map (native_width pf) toks)\<rparr>
         \<and> list_all (\<lambda>tok. \<exists>n. struct_calcsize pf (piece_of tok) = Inr n) toks"
  using assms
proof (induction toks arbitrary: st i)
  case Nil
  then show ?case by simp
next
  case (Cons tok toks)
  from Cons.prems(2) obtain s1 where s1: "scan_token pf st i tok = Inr s1"
    and rest: "scan pf s1 (Suc i) toks = Inr st'"
    by (auto split: sum.splits)
  from Cons.prems(1) have nw: "\<not> is_wildcard tok" and nws: "list_all (\<lambda>tok. \<not> is_wildcard tok) toks"
    by simp_all
  from scan_token_fixed_piece [OF nw s1] obtain n
    where n: "struct_calcsize pf (piece_of tok) = Inr n"
      and s1_eq: "s1 = st\<lparr>fmt := fmt st @ piece_of tok, cumsize := cumsize st + int n\<rparr>"
    by blast
  from n have w: "native_width pf tok = int n" by (simp add: native_width_def)
  from Cons.IH [OF nws rest] s1_eq n w show ?case by (simp add: add.assoc)
qed

lemma last_concat_replicate:
  "p \<noteq> [] \<Longrightarrow> last (concat (replicate (Suc k) p)) = last p"
  by (induction k) auto

lemma pieces_size:
  assumes "list_all (\<lambda>tok. (\<exists>n. struct_calcsize pf (piece_of tok) = Inr n) \<and> 0 < count_of tok) toks"
    and "standard_size (concat (map piece_of toks)) = Inr n"
  shows "(\<forall>tok\<in>set toks. standard_size (pattern_of tok) = Inr (width (pattern_of tok)))
         \<and> n = (\<Sum>tok\<leftarrow>toks. nat (count_of tok) * width (pattern_of tok))"
  using assms
proof (induction toks arbitrary: n)
  case Nil
  then show ?case by simp
next
  case (Cons tok toks)
  from Cons.prems(1) obtain m where m: "struct_calcsize pf (piece_of tok) = Inr m"
    and pos: "0 < count_of tok"
    and rest: "list_all (\<lambda>tok. (\<exists>n. struct_calcsize pf (piece_of tok) = Inr n) \<and> 0 < count_of tok) toks"
    by auto
  from pos obtain k where k: "nat (count_of tok) = Suc k"
    by (cases "nat (count_of tok)") auto
  let ?p = "pattern_of tok"
  have piece: "piece_of tok = concat (replicate (Suc k) ?p)"
    by (simp only: piece_of_def py_repeat_def k)
  from calcsize_last [OF m] have pl: "piece_of tok = [] \<or> \<not> is_digit (last (piece_of tok))" .
  have p_ok: "?p = [] \<or> \<not> is_digit (last ?p)"
  proof (cases "?p = []")
    case True
    then show ?thesis by simp
  next
    case False
    then have ne: "piece_of tok \<noteq> []" by (simp add: piece)
    from last_concat_replicate [OF False, of k] have "last (piece_of tok) = last ?p"
      by (simp only: piece)
    with pl ne show ?thesis by simp
  qed
  from Cons.prems(2) have "standard_size (piece_of tok @ concat (map piece_of toks)) = Inr n"
    by simp
  then obtain na nb where na: "standard_size (piece_of tok) = Inr na"
    and nb: "standard_size (concat (map piece_of toks)) = Inr nb" and n: "n = na + nb"
    by (auto simp: standard_size_append [OF pl] split: sum.splits)
  from na obtain w where w: "standard_size ?p = Inr w" and na_eq: "na = Suc k * w"
    by (auto simp only: piece standard_size_replicate [OF p_ok] split: sum.splits)
  from w have wd: "width ?p = w" by (simp add: width_def)
  from Cons.IH [OF rest nb] w wd na_eq n k show ?case by simp
qed

text \<open>
  The size of the format that is returned for tokens with positive counts, the count
  of a token being the integer that the loop reads from it.
\<close>

lemma parsed_counts_size:
  assumes "snd (gen_format_string pf formats fsize expand) = Inr (f, fs)"
    and "formats \<noteq> [''*'']"
    and "list_all (\<lambda>tok. \<not> is_wildcard tok \<and> 0 < count_of tok) formats"
  shows "f = concat (map piece_of formats)
         \<and> (\<forall>tok\<in>set formats. standard_size (pattern_of tok) = Inr (width (pattern_of tok)))
         \<and> struct_calcsize pf (CHR ''='' # f)
             = Inr (\<Sum>tok\<leftarrow>formats. nat (count_of tok) * width (pattern_of tok))"
proof -
  from assms(3) have nw: "list_all (\<lambda>tok. \<not> is_wildcard tok) formats"
    and pos: "list_all (\<lambda>tok. 0 < count_of tok) formats"
    by (simp_all add: list_all_iff)
  from assms(1,2) obtain st where st: "scan pf scan_init 0 formats = Inr st"
    by (auto simp: gen_format_string_def split: sum.splits)
  from scan_fixed [OF nw st]
  have f_st: "fmt st = concat (map piece_of formats)"
    and sp: "special_pattern st = None"
    and sized: "list_all (\<lambda>tok. \<exists>n. struct_calcsize pf (piece_of tok) = Inr n) formats"
    by (simp_all add: scan_init_def)
  from assms(1,2) st sp have fin: "snd (final_check pf (fmt st) fsize formats) = Inr (f, fs)"
    by (simp add: gen_format_string_def)
  then obtain n where n: "standard_size (fmt st) = Inr n" and f: "f = fmt st"
    by (auto simp: final_check_def struct_calcsize_standard split: sum.splits option.splits if_splits)
  from sized pos
  have "list_all (\<lambda>tok. (\<exists>n. struct_calcsize pf (piece_of tok) = Inr n) \<and> 0 < count_of tok) formats"
    by (simp add: list_all_iff)
  from pieces_size [OF this n [unfolded f_st]] n f f_st show ?thesis
    by (simp add: struct_calcsize_standard)
qed

section \<open>Counts written in decimal\<close>

lemma digit_chars:
  "char_of (48 :: nat) = CHR ''0''" "char_of (49 :: nat) = CHR ''1''"
  "char_of (50 :: nat) = CHR ''2''" "char_of (51 :: nat) = CHR ''3''"
  "char_of (52 :: nat) = CHR ''4''" "char_of (53 :: nat) = CHR ''5''"
  "char_of (54 :: nat) = CHR ''6''" "char_of (55 :: nat) = CHR ''7''"
  "char_of (56 :: nat) = CHR ''8''" "char_of (57 :: nat) = CHR ''9''"
  by code_simp+

lemma digit_char:
  assumes "d < 10"
  shows "is_digit (char_of (48 + d)) \<and> digit_val (char_of (48 + d)) = d"
proof -
  from assms have "d = 0 \<or> d = 1 \<or> d = 2 \<or> d = 3 \<or> d = 4 \<or> d = 5 \<or> d = 6
      \<or> d = 7 \<or> d = 8 \<or> d = 9"
    by presburger
  then show ?thesis
    by (elim disjE) (simp_all add: is_digit_def digit_val_def digit_chars)
qed

lemma is_digit_other:
  "is_digit c \<Longrightarrow> \<not> isspace c \<and> c \<noteq> CHR ''-'' \<and> c \<noteq> CHR ''+'' \<and> c \<noteq> CHR ''*'' \<and> c \<noteq> CHR '':''"
  by (auto simp: is_digit_def isspace_def)

lemma dec_value_snoc: "dec_value acc (xs @ [c]) = 10 * dec_value acc xs + digit_val c"
  by (induction xs arbitrary: acc) auto

lemma str_nat_digits:
  "str_nat n \<noteq> [] \<and> list_all is_digit (str_nat n) \<and> dec_value 0 (str_nat n) = n"
proof (induction n rule: str_nat.induct)
  case (1 n)
  show ?case
  proof (cases "n < 10")
    case True
    then have "str_nat n = [char_of (48 + n)]" by (subst str_nat.simps) simp
    with digit_char [OF True] show ?thesis by simp
  next
    case False
    have d: "n mod 10 < 10" by simp
    from False have "str_nat n = str_nat (n div 10) @ [char_of (48 + n mod 10)]"
      by (subst str_nat.simps) simp
    with 1 [OF False] digit_char [OF d] show ?thesis
      by (simp add: dec_value_snoc)
  qed
qed

lemma dropWhile_digits:
  assumes "s \<noteq> []" and "list_all is_digit s"
  shows "rev (dropWhile isspace (rev (dropWhile isspace s))) = s"
proof -
  from assms have "is_digit (hd s)" and "is_digit (last s)"
    by (simp_all add: list_all_iff)
  then have h: "\<not> isspace (hd s)" and l: "\<not> isspace (last s)"
    using is_digit_other by blast+
  from assms(1) h have 1: "dropWhile isspace s = s" by (cases s) simp_all
  from assms(1) obtain bs b where s: "s = bs @ [b]" by (cases s rule: rev_cases) auto
  with l have "\<not> isspace b" by simp
  then have "dropWhile isspace (rev s) = rev s" by (simp add: s)
  with 1 show ?thesis by simp
qed

lemma py_int_digits:
  assumes "s \<noteq> []" and "list_all is_digit s"
  shows "py_int s = Inr (int (dec_value 0 s))"
proof -
  from assms obtain c cs where s: "s = c # cs" and c: "is_digit c" by (cases s) auto
  have t: "rev (dropWhile isspace (rev (dropWhile isspace s))) = s"
    using assms by (rule dropWhile_digits)
  from is_digit_other [OF c] have nm: "c \<noteq> CHR ''-''" and np: "c \<noteq> CHR ''+''" by simp_all
  have "py_int s = (if s = [] \<or> \<not> list_all is_digit s then Inl ValueError
                    else Inr (1 * int (dec_value 0 s)))"
    unfolding py_int_def t using nm np by (simp add: s Let_def)
  with assms show ?thesis by simp
qed

lemma py_int_str_nat: "py_int (str_nat n) = Inr (int n)"
  using py_int_digits [of "str_nat n"] str_nat_digits [of n] by simp

lemma digits_no_colon: "list_all is_digit s \<Longrightarrow> CHR '':'' \<notin> set s"
  using is_digit_other by (auto simp: list_all_iff)

lemma render_token_facts:
  assumes "CHR '':'' \<notin> set (fst t)"
  shows "\<not> is_wildcard (render_token t) \<and> pattern_of (render_token t) = fst t
         \<and> count_of (render_token t) = int (written_count (snd t))"
proof (cases "snd t")
  case None
  with assms show ?thesis
    by (simp add: render_token_def written_count_def is_wildcard_def pattern_of_def count_of_def
          split_colon_plain)
next
  case (Some n)
  from str_nat_digits [of n] have ne: "str_nat n \<noteq> []" and dg: "list_all is_digit (str_nat n)"
    by simp_all
  from ne dg have "is_digit (last (str_nat n))" by (simp add: list_all_iff)
  then have nl: "last (str_nat n) \<noteq> CHR ''*''" using is_digit_other by blast
  have sp: "split_colon (fst t @ CHR '':'' # str_nat n) = [fst t, str_nat n]"
    using assms digits_no_colon [OF dg] by (simp add: split_colon_append split_colon_plain)
  from Some sp ne nl show ?thesis
    by (simp add: render_token_def written_count_def is_wildcard_def pattern_of_def count_of_def
          py_int_str_nat)
qed

lemma render_token_fallback:
  assumes "CHR '':'' \<notin> set (fst t)" and "render_token t = ''*''"
  shows "t = (''*'', None)"
proof (cases "snd t")
  case None
  with assms(2) have "fst t = ''*''" by (simp add: render_token_def)
  with None show ?thesis by (cases t) simp
next
  case (Some n)
  with assms(2) have "fst t @ CHR '':'' # str_nat n = ''*''" by (simp add: render_token_def)
  then have "CHR '':'' \<in> set ''*''" by (metis in_set_conv_decomp)
  then show ?thesis by simp
qed

section \<open>Descriptors with one wildcard\<close>

lemma scan_append:
  "scan pf st i (xs @ ys) =
     (case scan pf st i xs of Inl e \<Rightarrow> Inl e | Inr st' \<Rightarrow> scan pf st' (i + length xs) ys)"
  by (induction xs arbitrary: st i) (auto split: sum.splits)

lemma scan_accepted_fixed:
  assumes "list_all (\<lambda>tok. accepted pf tok \<and> \<not> is_wildcard tok) toks"
  shows "scan pf st i toks =
           Inr (st\<lparr>fmt := fmt st @ concat (map piece_of toks),
                    cumsize := cumsize st + sum_list (map (native_width pf) toks)\<rparr>)"
proof -
  have "\<exists>st'. scan pf st i toks = Inr st'"
    using assms
  proof (induction toks arbitrary: st i)
    case Nil
    show ?case by simp
  next
    case (Cons tok toks)
    then obtain s0 where "scan_token pf scan_init 0 tok = Inr s0" and "\<not> is_wildcard tok"
      by (auto simp: accepted_def split: sum.splits)
    from scan_token_fixed [OF this(2,1), of st i] Cons show ?case by simp
  qed
  then obtain st' where st': "scan pf st i toks = Inr st'" by blast
  from assms have "list_all (\<lambda>tok. \<not> is_wildcard tok) toks" by (simp add: list_all_iff)
  from scan_fixed [OF this st'] st' show ?thesis by simp
qed

lemma scan_one_wildcard:
  assumes "list_all (\<lambda>tok. accepted pf tok \<and> \<not> is_wildcard tok) (xs @ ys)"
    and "is_wildcard w"
  shows "scan pf scan_init 0 (xs @ w # ys) =
           Inr \<lparr>fmt = concat (map piece_of xs) @ ''{0}'' @ concat (map piece_of ys),
                cumsize = sum_list (map (native_width pf) (xs @ ys)),
                special_pattern = Some (pattern_of w), special_index = Some (length xs)\<rparr>"
proof -
  from assms(1) have xs: "list_all (\<lambda>tok. accepted pf tok \<and> \<not> is_wildcard tok) xs"
    and ys: "list_all (\<lambda>tok. accepted pf tok \<and> \<not> is_wildcard tok) ys"
    by simp_all
  show ?thesis
    by (simp add: scan_append scan_accepted_fixed [OF xs] scan_accepted_fixed [OF ys]
          scan_token_wildcard [OF assms(2)] scan_init_def truthy_def)
qed

lemma wildcard_not_fallback: "is_wildcard w \<Longrightarrow> xs @ w # ys \<noteq> [''*'']"
  by (cases xs) auto

lemma same_scan_same_format:
  assumes "formats \<noteq> [''*'']" and "formats' \<noteq> [''*'']"
    and "scan pf scan_init 0 formats = scan pf scan_init 0 formats'"
  shows "map_sum id fst (snd (gen_format_string pf formats fsize False))
         = map_sum id fst (snd (gen_format_string pf formats' fsize False))"
  using assms
  by (auto simp: gen_format_string_def final_check_def Let_def
           split: sum.splits option.splits)

section \<open>Resolving the wildcard and checking the size\<close>

lemma py_format_Nil [simp]: "py_format [] r = Inr []"
  by (simp add: py_format.simps)

lemma py_format_Cons_plain:
  "c \<noteq> CHR ''{'' \<Longrightarrow> c \<noteq> CHR ''}'' \<Longrightarrow>
   py_format (c # s) r = (case py_format s r of Inl e \<Rightarrow> Inl e | Inr t \<Rightarrow> Inr (c # t))"
  by (subst py_format.simps) (auto simp: take_Suc_conv_app_nth split: sum.splits)

lemma py_format_placeholder:
  "py_format (''{0}'' @ s) r = (case py_format s r of Inl e \<Rightarrow> Inl e | Inr t \<Rightarrow> Inr (r @ t))"
  by (subst py_format.simps) simp

lemma py_format_append:
  "\<forall>c\<in>set a. c \<noteq> CHR ''{'' \<and> c \<noteq> CHR ''}'' \<Longrightarrow>
   py_format (a @ b) r = (case py_format b r of Inl e \<Rightarrow> Inl e | Inr t \<Rightarrow> Inr (a @ t))"
  by (induction a) (auto simp: py_format_Cons_plain split: sum.splits)

lemma py_format_one_placeholder:
  assumes "\<forall>c\<in>set a. c \<noteq> CHR ''{'' \<and> c \<noteq> CHR ''}''"
    and "\<forall>c\<in>set b. c \<noteq> CHR ''{'' \<and> c \<noteq> CHR ''}''"
  shows "py_format (a @ ''{0}'' @ b) r = Inr (a @ r @ b)"
proof -
  have "py_format (b @ []) r = Inr (b @ [])"
    by (subst py_format_append [OF assms(2)]) simp
  then show ?thesis
    by (simp add: py_format_append [OF assms(1)] py_format_placeholder [simplified])
qed

lemma items_chars:
  "items acc s = Inr its \<Longrightarrow> c \<in> set s \<Longrightarrow>
     is_digit c \<or> isspace c \<or> (\<exists>k. (k, c) \<in> set its)"
  by (induction acc s arbitrary: its rule: items.induct)
     (auto split: if_splits sum.splits)

lemma prepare_codes:
  "prepare t sz its = Inr fs \<Longrightarrow> (k, c) \<in> set its \<Longrightarrow> t c \<noteq> None"
  by (induction t sz its arbitrary: fs rule: prepare.induct)
     (auto simp: Let_def split: option.splits sum.splits)

lemma standard_size_no_brace:
  assumes "standard_size s = Inr n" and "c \<in> set s"
  shows "c \<noteq> CHR ''{'' \<and> c \<noteq> CHR ''}''"
proof -
  from assms(1) obtain its fs where its: "items None s = Inr its"
    and fs: "prepare standard_table 0 its = Inr fs"
    by (auto simp: standard_size_def split: sum.splits)
  from items_chars [OF its assms(2)] prepare_codes [OF fs]
  have "is_digit c \<or> isspace c \<or> standard_table c \<noteq> None" by blast
  then show ?thesis
    by (auto simp: is_digit_def isspace_def standard_table_def)
qed

lemma standard_size_last: "standard_size s = Inr n \<Longrightarrow> s = [] \<or> \<not> is_digit (last s)"
  by (auto simp: standard_size_def split: sum.splits dest: items_last)

text \<open>The pieces of accepted tokens whose size is the same in both modes.\<close>

lemma pieces_standard_size:
  assumes "list_all (\<lambda>tok. accepted pf tok \<and> \<not> is_wildcard tok) toks"
    and "list_all (\<lambda>tok. same_width pf (piece_of tok)) toks"
  shows "standard_size (concat (map piece_of toks))
           = Inr (nat (sum_list (map (native_width pf) toks)))
         \<and> 0 \<le> sum_list (map (native_width pf) toks)
         \<and> (\<forall>c\<in>set (concat (map piece_of toks)). c \<noteq> CHR ''{'' \<and> c \<noteq> CHR ''}'')"
  using assms
proof (induction toks)
  case Nil
  show ?case by simp
next
  case (Cons tok toks)
  from Cons.prems obtain s0 where s0: "scan_token pf scan_init 0 tok = Inr s0"
    and nw: "\<not> is_wildcard tok" and sw: "same_width pf (piece_of tok)"
    by (auto simp: accepted_def split: sum.splits)
  from scan_token_fixed_piece [OF nw s0] obtain n
    where n: "struct_calcsize pf (piece_of tok) = Inr n" by blast
  with sw have sn: "standard_size (piece_of tok) = Inr n" by (simp add: same_width_def)
  from n have w: "native_width pf tok = int n" by (simp add: native_width_def)
  define rest where "rest = concat (map piece_of toks)"
  define total where "total = sum_list (map (native_width pf) toks)"
  from Cons.IH Cons.prems
  have ih: "standard_size rest = Inr (nat total)"
    and pos: "0 \<le> total"
    and nb: "\<forall>c\<in>set rest. c \<noteq> CHR ''{'' \<and> c \<noteq> CHR ''}''"
    unfolding rest_def total_def by simp_all
  have "standard_size (piece_of tok @ rest) = Inr (n + nat total)"
    by (simp only: standard_size_append [OF standard_size_last [OF sn]] sn ih sum.case)
  moreover have "n + nat total = nat (int n + total)"
    using pos by simp
  ultimately have 1: "standard_size (piece_of tok @ rest) = Inr (nat (int n + total))"
    by simp
  have 2: "0 \<le> int n + total" using pos by simp
  have 3: "\<forall>c\<in>set (piece_of tok @ rest). c \<noteq> CHR ''{'' \<and> c \<noteq> CHR ''}''"
  proof
    fix c assume "c \<in> set (piece_of tok @ rest)"
    then have "c \<in> set (piece_of tok) \<or> c \<in> set rest" by simp
    then show "c \<noteq> CHR ''{'' \<and> c \<noteq> CHR ''}''"
    proof
      assume "c \<in> set (piece_of tok)"
      then show ?thesis by (rule standard_size_no_brace [OF sn])
    next
      assume "c \<in> set rest"
      with nb show ?thesis by blast
    qed
  qed
  have "concat (map piece_of (tok # toks)) = piece_of tok @ rest"
    by (simp add: rest_def)
  moreover have "sum_list (map (native_width pf) (tok # toks)) = int n + total"
    by (simp add: total_def w)
  ultimately show ?case using 1 2 3 by (simp only:)
qed

lemma wildcard_resolution:
  assumes fixed: "list_all (\<lambda>tok. accepted pf tok \<and> \<not> is_wildcard tok) (xs @ ys)"
    and w: "is_wildcard w" and p: "pattern_of w \<noteq> []"
    and chunk: "struct_calcsize pf (pattern_of w) = Inr chunksize" and nz: "chunksize \<noteq> 0"
    and same: "list_all (\<lambda>tok. same_width pf (piece_of tok)) (xs @ ys)"
    and samew: "same_width pf (pattern_of w)"
    and nonneg: "sum_list (map (native_width pf) (xs @ ys)) \<le> sz"
    and dvd: "int chunksize dvd sz - sum_list (map (native_width pf) (xs @ ys))"
  shows "snd (gen_format_string pf (xs @ w # ys) (Some sz) False)
           = Inr (concat (map piece_of xs)
                    @ py_repeat ((sz - sum_list (map (native_width pf) (xs @ ys))) div int chunksize)
                        (pattern_of w)
                    @ concat (map piece_of ys),
                  xs @ w # ys)"
proof -
  define A where "A = concat (map piece_of xs)"
  define B where "B = concat (map piece_of ys)"
  define a where "a = sum_list (map (native_width pf) xs)"
  define b where "b = sum_list (map (native_width pf) ys)"
  define rem where "rem = sz - sum_list (map (native_width pf) (xs @ ys))"
  define cnt where "cnt = rem div int chunksize"
  define R where "R = py_repeat cnt (pattern_of w)"
  have rem_ab: "rem = sz - (a + b)" by (simp add: rem_def a_def b_def)
  from fixed same have fx: "list_all (\<lambda>tok. accepted pf tok \<and> \<not> is_wildcard tok) xs"
    and fy: "list_all (\<lambda>tok. accepted pf tok \<and> \<not> is_wildcard tok) ys"
    and sx: "list_all (\<lambda>tok. same_width pf (piece_of tok)) xs"
    and sy: "list_all (\<lambda>tok. same_width pf (piece_of tok)) ys"
    by simp_all
  from pieces_standard_size [OF fx sx] have A: "standard_size A = Inr (nat a)"
    and a0: "0 \<le> a" and Ab: "\<forall>c\<in>set A. c \<noteq> CHR ''{'' \<and> c \<noteq> CHR ''}''"
    unfolding A_def a_def by blast+
  from pieces_standard_size [OF fy sy] have B: "standard_size B = Inr (nat b)"
    and b0: "0 \<le> b" and Bb: "\<forall>c\<in>set B. c \<noteq> CHR ''{'' \<and> c \<noteq> CHR ''}''"
    unfolding B_def b_def by blast+
  from chunk samew have pw: "standard_size (pattern_of w) = Inr chunksize"
    by (simp add: same_width_def)
  from nonneg have rem0: "0 \<le> rem" by (simp add: rem_def)
  with nz have c0: "0 \<le> cnt" by (simp add: cnt_def pos_imp_zdiv_nonneg_iff)
  from dvd have mod: "rem mod int chunksize = 0" by (simp add: rem_def dvd_eq_mod_eq_0)
  from dvd have prod: "cnt * int chunksize = rem" by (simp add: cnt_def rem_def)
  have R: "standard_size R = Inr (nat cnt * chunksize)"
  proof (cases "nat cnt")
    case 0
    then show ?thesis by (simp add: R_def py_repeat_def)
  next
    case (Suc k)
    then have "R = concat (replicate (Suc k) (pattern_of w))" by (simp only: R_def py_repeat_def)
    then have "standard_size R = Inr (Suc k * chunksize)"
      by (simp only: standard_size_replicate [OF standard_size_last [OF pw]] pw sum.case)
    with Suc show ?thesis by simp
  qed
  have RB: "standard_size (R @ B) = Inr (nat cnt * chunksize + nat b)"
    by (simp only: standard_size_append [OF standard_size_last [OF R]] R B sum.case)
  have ARB: "standard_size (A @ R @ B) = Inr (nat a + (nat cnt * chunksize + nat b))"
    by (simp only: standard_size_append [OF standard_size_last [OF A]] A RB sum.case)
  have "int (nat cnt * chunksize) = cnt * int chunksize" using c0 by simp
  with prod a0 b0 have total: "int (nat a + (nat cnt * chunksize + nat b)) = sz"
    by (simp add: rem_ab)
  have fin: "snd (final_check pf (A @ R @ B) (Some sz) (xs @ w # ys))
               = Inr (A @ R @ B, xs @ w # ys)"
    using total by (simp add: final_check_def struct_calcsize_standard ARB)
  have fm: "py_format (A @ ''{0}'' @ B) R = Inr (A @ R @ B)"
    using py_format_one_placeholder [OF Ab Bb] .
  have sc: "scan pf scan_init 0 (xs @ w # ys) =
           Inr \<lparr>fmt = A @ ''{0}'' @ B, cumsize = a + b,
                special_pattern = Some (pattern_of w), special_index = Some (length xs)\<rparr>"
    using scan_one_wildcard [OF fixed w] by (simp add: A_def B_def a_def b_def)
  have "snd (gen_format_string pf (xs @ w # ys) (Some sz) False) = Inr (A @ R @ B, xs @ w # ys)"
    using p chunk nz mod fm fin wildcard_not_fallback [OF w, of xs ys]
    by (simp add: gen_format_string_def sc Let_def rem_ab [symmetric] cnt_def [symmetric]
          R_def [symmetric])
  then show ?thesis by (simp only: A_def B_def R_def cnt_def rem_def)
qed

lemma nonzero_size_is_checked:
  assumes "snd (gen_format_string pf formats (Some sz) expand) = Inr (f, fs)"
    and "formats \<noteq> [''*'']" and "sz \<noteq> 0"
  shows "struct_calcsize pf (CHR ''='' # f) = Inr (nat sz) \<and> 0 < sz"
proof -
  have fc: "struct_calcsize pf (CHR ''='' # g) = Inr (nat sz) \<and> 0 < sz \<and> g = f"
    if "snd (final_check pf g (Some sz) l) = Inr (f, fs)" for g l
    using that assms(3)
    by (auto simp: final_check_def split: sum.splits if_splits)
  from assms(1,2) obtain g l where "snd (final_check pf g (Some sz) l) = Inr (f, fs)"
    by (auto simp: gen_format_string_def Let_def split: sum.splits option.splits if_splits)
  from fc [OF this] show ?thesis by blast
qed

lemma size_mismatch_example:
  "snd (gen_format_string lp64 [''i'', ''i''] (Some 10) False) = Inl (SizeMismatch 10 8)"
  by code_simp

lemma wildcard_example:
  "snd (gen_format_string lp64 [''i'', ''4s:*''] (Some 12) False)
     = Inr (''i4s4s'', [''i'', ''4s:*''])"
  by code_simp

text \<open>The definitions that compute the size of a format written out.\<close>

lemmas size_eval = struct_calcsize_def compile_format_def whichtable_def lp64_def lp64_table_def
  standard_table_def standard_size_def is_digit_def isspace_def digit_val_def align_def
  total_size_def Let_def

section \<open>Integer fields under the two byte orders\<close>

lemma length_le_bytes [simp]: "length (le_bytes n v) = n"
  by (induction n arbitrary: v) auto

lemma le_value_bound: "le_value bs < 256 ^ length bs"
proof (induction bs)
  case Nil
  show ?case by simp
next
  case (Cons b bs)
  have "unat b < 256" using unsigned_less [of b] by simp
  with Cons show ?case by simp
qed

lemma le_bytes_le_value: "le_bytes (length bs) (le_value bs) = bs"
proof (induction bs)
  case Nil
  show ?case by simp
next
  case (Cons b bs)
  have b: "unat b < 256" using unsigned_less [of b] by simp
  then have "(unat b + 256 * le_value bs) mod 256 = unat b"
    and "(unat b + 256 * le_value bs) div 256 = le_value bs"
    by simp_all
  with Cons show ?case by simp
qed

lemma to_le_length [simp]: "length (to_le e bs) = length bs"
  by (cases e) (simp_all add: to_le_def)

lemma to_le_other: "e \<noteq> e' \<Longrightarrow> to_le e' (to_le e bs) = rev bs"
  by (cases e; cases e') (simp_all add: to_le_def)

lemma pow256: "(256::nat) ^ n = 2 ^ (8 * n)"
  by (simp add: power_mult)

lemma unsigned_roundtrip:
  assumes "unsigned_code c" and "e \<noteq> e'"
  shows "unpack_field e c chunk = Inr (Some (VInt (int (le_value (to_le e chunk)))))
         \<and> pack_field e' c (length chunk) (VInt (int (le_value (to_le e chunk)))) = Inr (rev chunk)"
proof -
  from assms(1) have c: "c \<noteq> CHR ''x''" "c \<noteq> CHR ''c''" "c \<noteq> CHR ''s''" "c \<noteq> CHR ''p''"
    "c \<noteq> CHR ''?''" "\<not> signed_code c"
    by (auto simp: unsigned_code_def signed_code_def)
  let ?v = "le_value (to_le e chunk)"
  have "?v < 2 ^ (8 * length chunk)"
    using le_value_bound [of "to_le e chunk"] by (simp add: pow256)
  then have "int ?v < 2 ^ (8 * length chunk)"
    by (metis of_nat_less_iff of_nat_numeral of_nat_power)
  moreover have "le_bytes (length chunk) ?v = to_le e chunk"
    using le_bytes_le_value [of "to_le e chunk"] by simp
  ultimately show ?thesis
    using assms c by (simp add: unpack_field_def pack_field_def as_index_def to_le_other)
qed

lemma signed_roundtrip:
  assumes "signed_code c" and "e \<noteq> e'"
  shows "\<exists>i. unpack_field e c chunk = Inr (Some (VInt i))
             \<and> pack_field e' c (length chunk) (VInt i) = Inr (rev chunk)"
proof -
  from assms(1) have c: "c \<noteq> CHR ''x''" "c \<noteq> CHR ''c''" "c \<noteq> CHR ''s''" "c \<noteq> CHR ''p''"
    "c \<noteq> CHR ''?''"
    by (auto simp: signed_code_def)
  define n where "n = length chunk"
  define v where "v = le_value (to_le e chunk)"
  define h :: int where "h = 2 ^ (8 * n - 1)"
  define m :: int where "m = 2 ^ (8 * n)"
  define i where "i = (if 2 ^ (8 * n - 1) \<le> v then int v - 2 ^ (8 * n) else int v)"
  have vb: "int v < m"
    using le_value_bound [of "to_le e chunk"]
    unfolding v_def m_def n_def
    by (metis of_nat_less_iff of_nat_numeral of_nat_power pow256 to_le_length)
  have hpos: "0 < h" by (simp add: h_def)
  have half: "m = 2 * h \<or> (n = 0 \<and> m = 1 \<and> h = 1)"
  proof (cases n)
    case 0
    then show ?thesis by (simp add: m_def h_def)
  next
    case (Suc k)
    then have "8 * n = Suc (8 * n - 1)" by simp
    then have "(2::int) ^ (8 * n) = 2 * 2 ^ (8 * n - 1)" by (metis power_Suc)
    then show ?thesis by (simp add: m_def h_def)
  qed
  have cmp: "(2 ^ (8 * n - 1) \<le> v) = (h \<le> int v)"
    unfolding h_def by (metis of_nat_le_iff of_nat_numeral of_nat_power)
  have i_eq: "i = (if h \<le> int v then int v - m else int v)"
    unfolding i_def cmp m_def by (rule refl)
  have lo: "- h \<le> i" and hi: "i < h"
    using half vb hpos by (auto simp: i_eq)
  have "i mod m = int v"
  proof (cases "h \<le> int v")
    case True
    then have "i mod m = (int v - m) mod m" by (simp add: i_eq)
    also have "\<dots> = int v mod m" by simp
    also have "\<dots> = int v" using vb by simp
    finally show ?thesis .
  next
    case False
    with vb show ?thesis by (simp add: i_eq)
  qed
  then have "le_bytes n (nat (i mod 2 ^ (8 * n))) = to_le e chunk"
    using le_bytes_le_value [of "to_le e chunk"] by (simp add: m_def v_def n_def)
  moreover from lo hi have "- (2 ^ (8 * n - 1)) \<le> i \<and> i < 2 ^ (8 * n - 1)"
    by (simp add: h_def)
  ultimately have "pack_field e' c (length chunk) (VInt i) = Inr (rev chunk)"
    using assms c by (simp add: pack_field_def as_index_def to_le_other n_def)
  moreover have "unpack_field e c chunk = Inr (Some (VInt i))"
    using assms c by (simp add: unpack_field_def Let_def i_def v_def n_def)
  ultimately show ?thesis by blast
qed

section \<open>Unpacking and packing the fields of a plain format\<close>

lemma compile_format_little:
  "compile_format pf (CHR ''<'' # f) =
     (case standard_fields f of Inl e \<Rightarrow> Inl e | Inr fs \<Rightarrow> Inr (LittleEndian, fs))"
  by (simp add: compile_format_def whichtable_def standard_fields_def Let_def split: sum.splits)

lemma compile_format_big:
  "compile_format pf (CHR ''>'' # f) =
     (case standard_fields f of Inl e \<Rightarrow> Inl e | Inr fs \<Rightarrow> Inr (BigEndian, fs))"
  by (simp add: compile_format_def whichtable_def standard_fields_def Let_def split: sum.splits)

lemma standard_size_fields:
  "standard_size f = (case standard_fields f of Inl e \<Rightarrow> Inl e | Inr fs \<Rightarrow> Inr (total_size fs))"
  by (simp add: standard_size_def standard_fields_def split: sum.splits)

lemma items_codes: "items acc s = Inr its \<Longrightarrow> (k, c) \<in> set its \<Longrightarrow> c \<in> set s"
  by (induction acc s arbitrary: its rule: items.induct)
     (auto split: if_splits sum.splits)

lemma prepare_standard_fields:
  "prepare standard_table sz its = Inr fs \<Longrightarrow> (c, n) \<in> set fs \<Longrightarrow>
     (\<exists>k. (k, c) \<in> set its) \<and> standard_table c \<noteq> None \<and> (c = CHR ''c'' \<longrightarrow> n = 1)"
proof (induction its arbitrary: sz fs)
  case Nil
  then show ?case by simp
next
  case (Cons it its)
  obtain num d where it: "it = (num, d)" by (cases it)
  from Cons.prems(1) it obtain isz al r where e: "standard_table d = Some (isz, al)"
    and r: "prepare standard_table (align sz al + num * isz) its = Inr r"
    and fs: "fs = (if align sz al > sz then [(CHR ''x'', align sz al - sz)] else [])
                  @ (if d = CHR ''s'' \<or> d = CHR ''p'' \<or> d = CHR ''x''
                     then [(d, num * isz)] else replicate num (d, isz)) @ r"
    by (auto simp: Let_def split: option.splits sum.splits)
  from e have al: "al = 0" by (rule standard_table_align)
  from e have c1: "d = CHR ''c'' \<longrightarrow> isz = 1"
    by (auto simp: standard_table_def split: if_splits)
  from Cons.prems(2) fs al
  consider "(c, n) \<in> set r" | "c = d" "d = CHR ''c'' \<longrightarrow> n = isz"
    by (auto simp: align_def split: if_splits)
  then show ?case
  proof cases
    case 1
    from Cons.IH [OF r 1] it show ?thesis by auto
  next
    case 2
    with e c1 it show ?thesis by auto
  qed
qed

lemma plain_format_fields:
  assumes "plain_format f" and "standard_fields f = Inr fs"
  shows "list_all plain_field fs"
proof -
  from assms(2) obtain its where its: "items None f = Inr its"
    and fs: "prepare standard_table 0 its = Inr fs"
    by (auto simp: standard_fields_def split: sum.splits)
  have "plain_field (c, n)" if "(c, n) \<in> set fs" for c n
  proof -
    from prepare_standard_fields [OF fs that] obtain k where k: "(k, c) \<in> set its"
      and t: "standard_table c \<noteq> None" and c1: "c = CHR ''c'' \<longrightarrow> n = 1"
      by blast
    from items_codes [OF its k] assms(1)
    have "is_digit c \<or> isspace c \<or> opaque_code c \<or> integer_code c"
      by (auto simp: plain_format_def)
    moreover from t have "\<not> is_digit c" "\<not> isspace c"
      by (auto simp: standard_table_def is_digit_def isspace_def split: if_splits)
    ultimately show ?thesis using c1 by (auto simp: plain_field_def opaque_code_def)
  qed
  then show ?thesis by (auto simp: list_all_iff)
qed

lemma integer_code_cases:
  "integer_code c \<Longrightarrow> (signed_code c \<or> unsigned_code c) \<and> \<not> opaque_code c \<and> c \<noteq> CHR ''x''"
  by (auto simp: integer_code_def signed_code_def unsigned_code_def opaque_code_def)

lemma plain_field_flip:
  assumes "plain_field (c, n)" and "length chunk = n" and "e \<noteq> e'"
  shows "\<exists>v. unpack_field e c chunk = Inr (Some v)
             \<and> pack_field e' c n v = Inr (if opaque_code c then chunk else rev chunk)"
proof -
  consider "c = CHR ''c''" "n = 1" | "c = CHR ''s''" | "integer_code c"
    using assms(1) by (auto simp: plain_field_def)
  then show ?thesis
  proof cases
    case 1
    with assms(2) obtain b where "chunk = [b]" by (cases chunk) auto
    with 1 show ?thesis by (simp add: unpack_field_def pack_field_def opaque_code_def)
  next
    case 2
    with assms(2) show ?thesis by (simp add: unpack_field_def pack_field_def opaque_code_def)
  next
    case 3
    from integer_code_cases [OF 3] have no: "\<not> opaque_code c"
      and su: "signed_code c \<or> unsigned_code c" by simp_all
    from su show ?thesis
    proof
      assume "signed_code c"
      from signed_roundtrip [OF this assms(3), of chunk] assms(2) no show ?thesis by auto
    next
      assume "unsigned_code c"
      from unsigned_roundtrip [OF this assms(3), of chunk] assms(2) no show ?thesis by auto
    qed
  qed
qed

lemma total_size_Cons [simp]: "total_size ((c, n) # fs) = n + total_size fs"
  by (simp add: total_size_def)

lemma total_size_Nil [simp]: "total_size [] = 0"
  by (simp add: total_size_def)

lemma plain_fields_flip:
  assumes "list_all plain_field fs" and "length bs = total_size fs" and "e \<noteq> e'"
  shows "\<exists>vs. unpack_fields e fs bs = Inr vs \<and> length vs = num_values fs
              \<and> pack_fields e' fs vs = Inr (flip_fields fs bs)"
  using assms(1,2)
proof (induction fs arbitrary: bs)
  case Nil
  then show ?case by (simp add: num_values_def)
next
  case (Cons f fs)
  obtain c n where f: "f = (c, n)" by (cases f)
  from Cons.prems f have pf: "plain_field (c, n)" and rest: "list_all plain_field fs"
    and len: "length (take n bs) = n" and len': "length (drop n bs) = total_size fs"
    by simp_all
  from pf have nx: "c \<noteq> CHR ''x''"
    by (auto simp: plain_field_def dest: integer_code_cases)
  from plain_field_flip [OF pf len assms(3)] obtain v
    where u: "unpack_field e c (take n bs) = Inr (Some v)"
      and p: "pack_field e' c n v = Inr (if opaque_code c then take n bs else rev (take n bs))"
    by blast
  from Cons.IH [OF rest len'] obtain vs
    where us: "unpack_fields e fs (drop n bs) = Inr vs" and l: "length vs = num_values fs"
      and ps: "pack_fields e' fs vs = Inr (flip_fields fs (drop n bs))"
    by blast
  have "unpack_fields e (f # fs) bs = Inr (v # vs)" using f u us by simp
  moreover have "length (v # vs) = num_values (f # fs)" using f l nx by (simp add: num_values_def)
  moreover have "pack_fields e' (f # fs) (v # vs) = Inr (flip_fields (f # fs) bs)"
    using f nx p ps by simp
  ultimately show ?case by blast
qed

lemma length_flip_fields:
  "length bs = total_size fs \<Longrightarrow> length (flip_fields fs bs) = length bs"
proof (induction fs arbitrary: bs)
  case Nil
  then show ?case by simp
next
  case (Cons f fs)
  obtain c n where f: "f = (c, n)" by (cases f)
  with Cons.prems have "length (drop n bs) = total_size fs" by simp
  from Cons.IH [OF this] f Cons.prems show ?case by simp
qed

lemma flip_fields_twice:
  "length bs = total_size fs \<Longrightarrow> flip_fields fs (flip_fields fs bs) = bs"
proof (induction fs arbitrary: bs)
  case Nil
  then show ?case by simp
next
  case (Cons f fs)
  obtain c n where f: "f = (c, n)" by (cases f)
  with Cons.prems have l: "length (drop n bs) = total_size fs" and n: "n \<le> length bs" by simp_all
  from Cons.IH [OF l] f n show ?case by (simp add: min_def)
qed

lemma flip_fields_opaque:
  "list_all (\<lambda>f. opaque_code (fst f)) fs \<Longrightarrow> length bs = total_size fs \<Longrightarrow> flip_fields fs bs = bs"
proof (induction fs arbitrary: bs)
  case Nil
  then show ?case by simp
next
  case (Cons f fs)
  obtain c n where f: "f = (c, n)" by (cases f)
  with Cons.prems have l: "length (drop n bs) = total_size fs" by simp
  from Cons.IH [OF _ l] f Cons.prems show ?case by simp
qed

section \<open>The two stages of \<^verbatim>\<open>convert\<close>\<close>

lemma stage_orders_differ: "unpack_order pf bo \<noteq> pack_order pf bo"
  by (simp add: unpack_order_def pack_order_def)

lemma convert_fields:
  assumes "f \<noteq> ''*''"
  shows "convert pf stream bo f =
           (case standard_fields f of
              Inl err \<Rightarrow> Inl err
            | Inr fs \<Rightarrow>
                if length stream \<noteq> total_size fs then Inl StructError
                else (case unpack_fields (unpack_order pf bo) fs stream of
                        Inl err \<Rightarrow> Inl err
                      | Inr vs \<Rightarrow>
                          if length vs \<noteq> num_values fs then Inl StructError
                          else pack_fields (pack_order pf bo) fs vs))"
  using assms
  by (simp add: convert_def stage_formats_def struct_unpack_def struct_pack_def
        compile_format_little compile_format_big unpack_order_def pack_order_def
        resolved_order_def Let_def
      split: sum.splits option.splits)

lemma unpack_fields_values: "unpack_fields e fs bs = Inr vs \<Longrightarrow> length vs = num_values fs"
proof (induction fs arbitrary: bs vs)
  case Nil
  then show ?case by (simp add: num_values_def)
next
  case (Cons f fs)
  obtain c n where f: "f = (c, n)" by (cases f)
  from Cons.prems f obtain v ws where v: "unpack_field e c (take n bs) = Inr v"
    and ws: "unpack_fields e fs (drop n bs) = Inr ws"
    and vs: "vs = (case v of None \<Rightarrow> ws | Some x \<Rightarrow> x # ws)"
    by (auto split: sum.splits)
  from v have "(v = None) = (c = CHR ''x'')"
    by (auto simp: unpack_field_def Let_def split: if_splits list.splits)
  with Cons.IH [OF ws] f vs show ?case by (cases v) (auto simp: num_values_def)
qed

lemma unpack_fields_append:
  "length s1 = total_size fa \<Longrightarrow>
   unpack_fields e (fa @ fb) (s1 @ s2) =
     (case unpack_fields e fa s1 of
        Inl err \<Rightarrow> Inl err
      | Inr v1 \<Rightarrow>
          (case unpack_fields e fb s2 of Inl err \<Rightarrow> Inl err | Inr v2 \<Rightarrow> Inr (v1 @ v2)))"
proof (induction fa arbitrary: s1)
  case Nil
  then show ?case by (simp split: sum.splits)
next
  case (Cons f fa)
  obtain c n where f: "f = (c, n)" by (cases f)
  with Cons.prems have l: "length (drop n s1) = total_size fa" and n: "n \<le> length s1"
    by simp_all
  from Cons.IH [OF l] f n show ?case
    by (auto split: sum.splits option.splits)
qed

lemma pack_fields_append:
  "length v1 = num_values fa \<Longrightarrow>
   pack_fields e (fa @ fb) (v1 @ v2) =
     (case pack_fields e fa v1 of
        Inl err \<Rightarrow> Inl err
      | Inr o1 \<Rightarrow>
          (case pack_fields e fb v2 of Inl err \<Rightarrow> Inl err | Inr o2 \<Rightarrow> Inr (o1 @ o2)))"
proof (induction fa arbitrary: v1)
  case Nil
  then show ?case by (simp add: num_values_def split: sum.splits)
next
  case (Cons f fa)
  obtain c n where f: "f = (c, n)" by (cases f)
  show ?case
  proof (cases "c = CHR ''x''")
    case True
    with Cons.prems f have "length v1 = num_values fa" by (simp add: num_values_def)
    from Cons.IH [OF this] f True show ?thesis by (auto split: sum.splits)
  next
    case False
    with Cons.prems f obtain v vs where v1: "v1 = v # vs" and l: "length vs = num_values fa"
      by (cases v1) (auto simp: num_values_def)
    from Cons.IH [OF l] f False v1 show ?thesis by (auto split: sum.splits)
  qed
qed

lemma standard_fields_error: "standard_fields s = Inl e \<Longrightarrow> e = StructError"
  by (auto simp: standard_fields_def split: sum.splits dest: items_error prepare_error)

lemma standard_fields_last: "standard_fields s = Inr fs \<Longrightarrow> s = [] \<or> \<not> is_digit (last s)"
  by (auto simp: standard_fields_def split: sum.splits dest: items_last)

lemma standard_fields_append:
  "a = [] \<or> \<not> is_digit (last a) \<Longrightarrow>
   standard_fields (a @ b) =
     (case standard_fields a of
        Inl e \<Rightarrow> Inl e
      | Inr fa \<Rightarrow> (case standard_fields b of Inl e \<Rightarrow> Inl e | Inr fb \<Rightarrow> Inr (fa @ fb)))"
  by (auto simp: standard_fields_def items_append_None prepare_standard_append
           split: sum.splits dest!: items_error prepare_error)

lemma convert_success:
  assumes "f \<noteq> ''*''" and "convert pf stream bo f = Inr out"
  shows "\<exists>fs vs. standard_fields f = Inr fs \<and> length stream = total_size fs
                 \<and> unpack_fields (unpack_order pf bo) fs stream = Inr vs
                 \<and> pack_fields (pack_order pf bo) fs vs = Inr out"
proof (cases "standard_fields f")
  case (Inl err)
  with assms show ?thesis by (simp add: convert_fields)
next
  case (Inr fs)
  note fs = this
  show ?thesis
  proof (cases "length stream = total_size fs")
    case False
    with assms fs show ?thesis by (simp add: convert_fields)
  next
    case True
    note l = this
    show ?thesis
    proof (cases "unpack_fields (unpack_order pf bo) fs stream")
      case (Inl err)
      with assms fs l show ?thesis by (simp add: convert_fields)
    next
      case (Inr vs)
      with assms fs l have "pack_fields (pack_order pf bo) fs vs = Inr out"
        by (simp add: convert_fields split: if_splits)
      with fs l Inr show ?thesis by blast
    qed
  qed
qed

lemma append_not_fallback: "f1 \<noteq> ''*'' \<Longrightarrow> f2 \<noteq> ''*'' \<Longrightarrow> f1 @ f2 \<noteq> ''*''"
  by (cases f1) auto

lemma convert_append:
  assumes c1: "convert pf s1 bo f1 = Inr o1" and c2: "convert pf s2 bo f2 = Inr o2"
    and n1: "f1 \<noteq> ''*''" and n2: "f2 \<noteq> ''*''"
  shows "convert pf (s1 @ s2) bo (f1 @ f2) = Inr (o1 @ o2)"
proof -
  let ?e = "unpack_order pf bo" and ?e' = "pack_order pf bo"
  from convert_success [OF n1 c1] obtain fa v1 where fa: "standard_fields f1 = Inr fa"
    and l1: "length s1 = total_size fa" and u1: "unpack_fields ?e fa s1 = Inr v1"
    and p1: "pack_fields ?e' fa v1 = Inr o1"
    by blast
  from convert_success [OF n2 c2] obtain fb v2 where fb: "standard_fields f2 = Inr fb"
    and l2: "length s2 = total_size fb" and u2: "unpack_fields ?e fb s2 = Inr v2"
    and p2: "pack_fields ?e' fb v2 = Inr o2"
    by blast
  from n1 n2 have n: "f1 @ f2 \<noteq> ''*''" by (rule append_not_fallback)
  have fs: "standard_fields (f1 @ f2) = Inr (fa @ fb)"
    using standard_fields_append [OF standard_fields_last [OF fa]] fa fb by simp
  have u: "unpack_fields ?e (fa @ fb) (s1 @ s2) = Inr (v1 @ v2)"
    using unpack_fields_append [OF l1] u1 u2 by simp
  have nv1: "length v1 = num_values fa" using u1 by (rule unpack_fields_values)
  have nv2: "length v2 = num_values fb" using u2 by (rule unpack_fields_values)
  have p: "pack_fields ?e' (fa @ fb) (v1 @ v2) = Inr (o1 @ o2)"
    using pack_fields_append [OF nv1] p1 p2 by simp
  from nv1 nv2 have nv: "length (v1 @ v2) = num_values (fa @ fb)" by (simp add: num_values_def)
  from l1 l2 have l: "length (s1 @ s2) = total_size (fa @ fb)" by simp
  show ?thesis
    by (simp only: convert_fields [OF n] fs u p nv l sum.case) simp
qed

lemma star_not_plain: "\<not> plain_format ''*''"
  by (simp add: plain_format_def is_digit_def isspace_def opaque_code_def integer_code_def)

lemma plain_not_fallback: "plain_format f \<Longrightarrow> f \<noteq> ''*''"
  using star_not_plain by blast

lemma convert_plain:
  assumes "plain_format f" and "standard_size f = Inr (length stream)"
  shows "\<exists>fs. standard_fields f = Inr fs \<and> length stream = total_size fs
              \<and> convert pf stream bo f = Inr (flip_fields fs stream)"
proof -
  from assms(2) obtain fs where fs: "standard_fields f = Inr fs"
    and l: "length stream = total_size fs"
    by (auto simp: standard_size_fields split: sum.splits)
  from plain_fields_flip [OF plain_format_fields [OF assms(1) fs] l stage_orders_differ [of pf bo]]
  obtain vs where "unpack_fields (unpack_order pf bo) fs stream = Inr vs"
    and "length vs = num_values fs"
    and "pack_fields (pack_order pf bo) fs vs = Inr (flip_fields fs stream)"
    by blast
  with fs l show ?thesis
    by (simp add: convert_fields [OF plain_not_fallback [OF assms(1)]])
qed

section \<open>Opaque fields and the fallback format\<close>

lemma opaque_is_plain: "opaque_format f \<Longrightarrow> plain_format f"
  by (auto simp: opaque_format_def plain_format_def)

lemma opaque_format_fields:
  assumes "opaque_format f" and "standard_fields f = Inr fs"
  shows "list_all (\<lambda>f. opaque_code (fst f)) fs"
proof -
  from assms(2) obtain its where its: "items None f = Inr its"
    and fs: "prepare standard_table 0 its = Inr fs"
    by (auto simp: standard_fields_def split: sum.splits)
  have "opaque_code c" if "(c, n) \<in> set fs" for c n
  proof -
    from prepare_standard_fields [OF fs that] obtain k where k: "(k, c) \<in> set its"
      and t: "standard_table c \<noteq> None"
      by blast
    from items_codes [OF its k] assms(1)
    have "is_digit c \<or> isspace c \<or> opaque_code c"
      by (auto simp: opaque_format_def)
    moreover from t have "\<not> is_digit c" "\<not> isspace c"
      by (auto simp: standard_table_def is_digit_def isspace_def split: if_splits)
    ultimately show ?thesis by blast
  qed
  then show ?thesis by (auto simp: list_all_iff)
qed

lemma convert_opaque:
  assumes "opaque_format op" and "standard_size op = Inr (length mid)"
  shows "convert pf mid bo op = Inr mid"
proof -
  from convert_plain [OF opaque_is_plain [OF assms(1)] assms(2), of pf bo]
  obtain fs where fs: "standard_fields op = Inr fs" and l: "length mid = total_size fs"
    and c: "convert pf mid bo op = Inr (flip_fields fs mid)"
    by blast
  from flip_fields_opaque [OF opaque_format_fields [OF assms(1) fs] l] c show ?thesis by simp
qed

lemma concat_replicate_single: "concat (replicate n [x]) = replicate n x"
  by (induction n) auto

lemma py_repeat_char: "py_repeat (int n) [x] = replicate n x"
  by (simp add: py_repeat_def concat_replicate_single)

lemma standard_fields_c: "standard_fields ''c'' = Inr [(CHR ''c'', 1)]"
  by code_simp

lemma standard_fields_chars:
  "standard_fields (replicate n (CHR ''c'')) = Inr (replicate n (CHR ''c'', 1))"
proof (induction n)
  case 0
  show ?case by (simp add: standard_fields_def)
next
  case (Suc n)
  have "standard_fields (''c'' @ replicate n (CHR ''c'')) = Inr ([(CHR ''c'', 1)] @ replicate n (CHR ''c'', 1))"
    by (subst standard_fields_append) (simp_all add: standard_fields_c Suc is_digit_def)
  then show ?case by simp
qed

lemma convert_fallback: "convert pf stream bo ''*'' = Inr stream"
proof -
  let ?f = "replicate (length stream) (CHR ''c'')"
  have ne: "?f \<noteq> ''*''" by (cases "length stream") auto
  have same: "convert pf stream bo ''*'' = convert pf stream bo ?f"
    using ne by (simp add: convert_def py_repeat_char)
  have op: "opaque_format ?f" by (simp add: opaque_format_def opaque_code_def)
  have "total_size (replicate n (CHR ''c'', 1)) = n" for n
    by (induction n) simp_all
  then have sz: "standard_size ?f = Inr (length stream)"
    by (simp add: standard_size_fields standard_fields_chars)
  from convert_opaque [OF op sz] same show ?thesis by simp
qed

section \<open>Properties of the descriptor compiler\<close>

text \<open>
  Claim C3. For one wildcard token and a total size that leaves a non-negative multiple
  of the wildcard pattern's width, the wildcard is resolved to that quotient and the
  pattern is repeated in its place. The code measures the fixed tokens with
  \<^verbatim>\<open>struct.calcsize(pattern)\<close>, in native mode, where \<^verbatim>\<open>ci\<close> takes 8 bytes (three pad bytes
  align the int), and checks the result with \<^verbatim>\<open>struct.calcsize('=' + fmt)\<close>, in standard
  mode, where \<^verbatim>\<open>ci\<close> takes 5. An 8 byte file is a \<^verbatim>\<open>ci\<close> record and three more bytes,
  \<^verbatim>\<open>ciccc\<close>; the code finds no byte left, resolves the count to 0 and then refuses its
  own result. Where the sizes of the tokens are the same in both modes the code does
  what the claim says (\<open>wildcard_resolution\<close>).
\<close>

theorem native_widths_reject_fitting_layout:
  "struct_calcsize lp64 ''ci'' = Inr 8 \<and> struct_calcsize lp64 ''=ci'' = Inr 5
   \<and> struct_calcsize lp64 ''=ciccc'' = Inr 8
   \<and> snd (gen_format_string lp64 [''ci'', ''c:*''] (Some 8) False) = Inl (SizeMismatch 8 5)"
  by code_simp

text \<open>
  Claim C4, as stated: with one wildcard token and a total size, the compiler fails with
  the division error whenever the remaining size is not a multiple of the wildcard
  pattern's width, or is negative, also when the negative remaining size is a multiple
  of that width. The code tests \<^verbatim>\<open>remaining % chunksize != 0\<close> and nothing else. With two
  ints before the wildcard and a file of 4 bytes the remaining size is -4, a multiple of
  4: the count is -1, the pattern is repeated no times, and it is the final check that
  refuses the format, with the size mismatch.
\<close>

theorem negative_multiple_is_no_division_error:
  "snd (gen_format_string lp64 [''i'', ''i'', ''4s:*''] (Some 4) False) = Inl (SizeMismatch 4 8)
   \<and> snd (gen_format_string lp64 [''i'', ''i'', ''4s:*''] (Some 4) False) \<noteq> Inl DivisionError"
  by code_simp

text \<open>
  Claim C4, amended: with one wildcard token and a total size, the compiler fails with
  the division error of line 139 whenever the remaining size, negative or not, is not a
  multiple of the width of the wildcard pattern. The other tokens are well formed, the
  wildcard pattern is not empty and its width is not 0; the statement is about tokens
  whose size is the same in native as in standard mode, and says nothing of the others.
\<close>

theorem indivisible_remainder_rejected:
  assumes "list_all (\<lambda>tok. accepted pf tok \<and> \<not> is_wildcard tok) (xs @ ys)"
    and "is_wildcard w" and "pattern_of w \<noteq> []"
    and "struct_calcsize pf (pattern_of w) = Inr chunksize" and "chunksize \<noteq> 0"
    and "list_all (\<lambda>tok. same_width pf (piece_of tok)) (xs @ ys)"
    and "same_width pf (pattern_of w)"
    and "\<not> int chunksize dvd sz - sum_list (map (native_width pf) (xs @ ys))"
  shows "snd (gen_format_string pf (xs @ w # ys) (Some sz) expand) = Inl DivisionError"
proof -
  from assms(8) have "(sz - sum_list (map (native_width pf) (xs @ ys))) mod int chunksize \<noteq> 0"
    by (simp add: dvd_eq_mod_eq_0)
  with assms(3,4,5) wildcard_not_fallback [OF assms(2), of xs ys] show ?thesis
    by (simp add: gen_format_string_def scan_one_wildcard [OF assms(1,2)] Let_def)
qed

theorem indivisible_remainder_rejected_witness:
  "list_all (\<lambda>tok. accepted lp64 tok \<and> \<not> is_wildcard tok) ([''i''] @ [])
   \<and> is_wildcard ''4s:*'' \<and> pattern_of ''4s:*'' \<noteq> []
   \<and> struct_calcsize lp64 (pattern_of ''4s:*'') = Inr 4
   \<and> list_all (\<lambda>tok. same_width lp64 (piece_of tok)) ([''i''] @ [])
   \<and> same_width lp64 (pattern_of ''4s:*'')
   \<and> \<not> int 4 dvd 9 - sum_list (map (native_width lp64) ([''i''] @ []))
   \<and> snd (gen_format_string lp64 [''i'', ''4s:*''] (Some 9) False) = Inl DivisionError"
proof -
  have a: "list_all (\<lambda>tok. accepted lp64 tok \<and> \<not> is_wildcard tok) ([''i''] @ [])" by code_simp
  have b: "is_wildcard ''4s:*''" by code_simp
  have c: "pattern_of ''4s:*'' \<noteq> []" by code_simp
  have d: "struct_calcsize lp64 (pattern_of ''4s:*'') = Inr 4" by code_simp
  have e: "(4::nat) \<noteq> 0" by simp
  have f: "list_all (\<lambda>tok. same_width lp64 (piece_of tok)) ([''i''] @ [])" by code_simp
  have g: "same_width lp64 (pattern_of ''4s:*'')" by code_simp
  have n: "native_width lp64 ''i'' = 4" by code_simp
  have h: "\<not> int 4 dvd 9 - sum_list (map (native_width lp64) ([''i''] @ []))"
    by (simp add: n)
  from indivisible_remainder_rejected [OF a b c d e f g h, of False] a b c d f g h
  show ?thesis by simp
qed

text \<open>
  Claim C5. A supplied total size that differs from the size of the resolved format is
  refused with a size mismatch, also when the total size is 0. The test
  \<^verbatim>\<open>if size and size != fmt_size\<close> is false for a size of 0: the format \<^verbatim>\<open>i\<close>, of 4 bytes,
  is returned for an empty file. Every other size is checked (\<open>nonzero_size_is_checked\<close>).
\<close>

theorem size_zero_is_not_checked:
  "gen_format_string lp64 [''i''] (Some 0) False = ([''i''], Inr (''i'', [''i'']))
   \<and> struct_calcsize lp64 ''=i'' = Inr 4"
  by code_simp

text \<open>
  Claim C6, as stated: every descriptor with two or more wildcard tokens is refused with
  the error of line 112, \<open>MultipleWildcards\<close>, whatever the total size. The loop reads the
  tokens from left to right and stops at the first one it cannot read: a count that is
  no integer, between the two wildcards, raises \<^verbatim>\<open>ValueError\<close> at line 122 before the
  second wildcard is seen. And the test \<^verbatim>\<open>if special_pattern\<close> is false for a wildcard
  whose pattern is empty, so that the wildcard after it is taken as the first.
\<close>

theorem second_wildcard_not_reached:
  "snd (gen_format_string lp64 [''4s:*'', ''i:x'', ''2s:*''] None False) = Inl ValueError
   \<and> snd (gen_format_string lp64 ['':*'', ''4s:*''] None False)
       = Inr (''{0}{0}'', ['':*'', ''4s:*''])"
  by code_simp

text \<open>
  Claim C6, amended: a descriptor of well-formed tokens with two or more wildcard tokens
  is refused with the error of line 112, \<open>MultipleWildcards\<close>, whether a total size is
  supplied or not and whatever it is. A token is well formed when its pattern is not
  empty and the loop accepts the token on its own.
\<close>

theorem two_wildcards_rejected:
  assumes "list_all (accepted pf) formats"
    and "2 \<le> length (filter is_wildcard formats)"
  shows "snd (gen_format_string pf formats fsize expand) = Inl MultipleWildcards"
proof -
  from assms(2) have "formats \<noteq> [''*'']" by auto
  moreover have "scan pf scan_init 0 formats = Inl MultipleWildcards"
    using assms by (simp add: scan_second_wildcard)
  ultimately show ?thesis by (simp add: gen_format_string_def)
qed

theorem two_wildcards_rejected_witness:
  "list_all (accepted lp64) [''4s:*'', ''2s:*'']
   \<and> 2 \<le> length (filter is_wildcard [''4s:*'', ''2s:*''])
   \<and> snd (gen_format_string lp64 [''4s:*'', ''2s:*''] None False) = Inl MultipleWildcards
   \<and> snd (gen_format_string lp64 [''4s:*'', ''2s:*''] (Some 6) True) = Inl MultipleWildcards"
proof -
  have a: "list_all (accepted lp64) [''4s:*'', ''2s:*'']" by code_simp
  have b: "2 \<le> length (filter is_wildcard [''4s:*'', ''2s:*''])" by code_simp
  show ?thesis
    using a b two_wildcards_rejected [OF a b, of None False]
      two_wildcards_rejected [OF a b, of "Some 6" True] by simp
qed

text \<open>
  Claim C7. For a valid descriptor with no wildcard token the compiler is deterministic
  and the byte size of the flat format it returns is the sum over the tokens of count
  times the width of the pattern, the count being 1 where the token has none.

  The tokens are written as the grammar has them, a pattern alone or a pattern, a colon
  and a positive count in decimal digits, and the count of the statement is the number
  so written. A valid descriptor is one the compiler returns a format for. The format
  returned is each pattern repeated as often as its token says, every pattern has a
  width, and the size of the format is the sum of the counts times the widths. The
  sizes are those of standard mode, in which the code measures its result and in which
  \<^verbatim>\<open>convert\<close> packs. The compiler is a function of the platform, the tokens, the size and
  the flag and of nothing else: there is no state that a second call could see.
\<close>

theorem fixed_descriptor_size:
  assumes "snd (gen_format_string pf (map render_token toks) fsize expand) = Inr (f, fs)"
    and "toks \<noteq> [(''*'', None)]"
    and "list_all (\<lambda>t. CHR '':'' \<notin> set (fst t) \<and> 0 < written_count (snd t)) toks"
  shows "f = concat (map (\<lambda>t. concat (replicate (written_count (snd t)) (fst t))) toks)
         \<and> (\<forall>t\<in>set toks. standard_size (fst t) = Inr (width (fst t)))
         \<and> struct_calcsize pf (CHR ''='' # f)
             = Inr (\<Sum>t\<leftarrow>toks. written_count (snd t) * width (fst t))"
proof -
  have facts: "\<not> is_wildcard (render_token t) \<and> pattern_of (render_token t) = fst t
         \<and> count_of (render_token t) = int (written_count (snd t))
         \<and> 0 < written_count (snd t)" if "t \<in> set toks" for t
    using that assms(3) render_token_facts [of t] by (simp add: list_all_iff)
  have nf: "map render_token toks \<noteq> [''*'']"
  proof
    assume eq: "map render_token toks = [''*'']"
    then obtain t where t: "toks = [t]" and r: "render_token t = ''*''" by (cases toks) auto
    from t assms(3) have "CHR '':'' \<notin> set (fst t)" by simp
    from render_token_fallback [OF this r] t assms(2) show False by simp
  qed
  have ok: "list_all (\<lambda>tok. \<not> is_wildcard tok \<and> 0 < count_of tok) (map render_token toks)"
    using facts by (simp add: list_all_iff)
  from parsed_counts_size [OF assms(1) nf ok]
  have 1: "f = concat (map piece_of (map render_token toks))"
    and 2: "\<forall>tok\<in>set (map render_token toks).
              standard_size (pattern_of tok) = Inr (width (pattern_of tok))"
    and 3: "struct_calcsize pf (CHR ''='' # f)
              = Inr (\<Sum>tok\<leftarrow>map render_token toks. nat (count_of tok) * width (pattern_of tok))"
    by blast+
  have p: "map piece_of (map render_token toks)
             = map (\<lambda>t. concat (replicate (written_count (snd t)) (fst t))) toks"
    using facts by (simp add: piece_of_def py_repeat_def)
  have s: "(\<Sum>tok\<leftarrow>map render_token toks. nat (count_of tok) * width (pattern_of tok))
             = (\<Sum>t\<leftarrow>toks. written_count (snd t) * width (fst t))"
  proof -
    have "map (\<lambda>tok. nat (count_of tok) * width (pattern_of tok)) (map render_token toks)
            = map (\<lambda>t. written_count (snd t) * width (fst t)) toks"
      using facts by simp
    then show ?thesis by (simp only:)
  qed
  have w: "\<forall>t\<in>set toks. standard_size (fst t) = Inr (width (fst t))"
    using 2 facts by auto
  from 1 3 w show ?thesis by (simp only: p s)
qed

theorem fixed_descriptor_size_witness:
  "map render_token [(''id4s'', Some 2), (''f2d'', None), (''h'', Some 12), (''i'', Some 3)]
     = [''id4s:2'', ''f2d'', ''h:12'', ''i:3'']
   \<and> snd (gen_format_string lp64 [''id4s:2'', ''f2d'', ''h:12'', ''i:3''] None False)
       = Inr (''id4sid4sf2dhhhhhhhhhhhhiii'', [''id4s:2'', ''f2d'', ''h:12'', ''i:3''])
   \<and> struct_calcsize lp64 ''=id4sid4sf2dhhhhhhhhhhhhiii''
       = Inr (2 * width ''id4s'' + 1 * width ''f2d'' + 12 * width ''h'' + 3 * width ''i'')
   \<and> width ''id4s'' = 16 \<and> width ''f2d'' = 20 \<and> width ''h'' = 2 \<and> width ''i'' = 4"
proof -
  let ?toks = "[(''id4s'', Some 2), (''f2d'', None), (''h'', Some 12), (''i'', Some (3::nat))]"
  have r: "map render_token ?toks = [''id4s:2'', ''f2d'', ''h:12'', ''i:3'']" by code_simp
  have counts: "py_int ''2'' = Inr 2" "py_int ''12'' = Inr 12" "py_int ''3'' = Inr 3"
    by code_simp+
  have pieces: "py_repeat 2 ''id4s'' = ''id4sid4s''" "py_repeat 12 ''h'' = ''hhhhhhhhhhhh''"
    "py_repeat 3 ''i'' = ''iii''"
    by code_simp+
  have native: "struct_calcsize lp64 ''id4sid4s'' = Inr 36" "struct_calcsize lp64 ''f2d'' = Inr 24"
    "struct_calcsize lp64 ''hhhhhhhhhhhh'' = Inr 24" "struct_calcsize lp64 ''iii'' = Inr 12"
    by (simp_all add: size_eval)
  have final: "standard_size ''id4sid4sf2dhhhhhhhhhhhhiii'' = Inr 88"
    by (simp add: size_eval)
  have g: "snd (gen_format_string lp64 [''id4s:2'', ''f2d'', ''h:12'', ''i:3''] None False)
       = Inr (''id4sid4sf2dhhhhhhhhhhhhiii'', [''id4s:2'', ''f2d'', ''h:12'', ''i:3''])"
    by (simp add: gen_format_string_def scan_init_def scan_token_def counts pieces native
          final_check_def struct_calcsize_standard final Let_def)
  have a: "snd (gen_format_string lp64 (map render_token ?toks) None False)
       = Inr (''id4sid4sf2dhhhhhhhhhhhhiii'', [''id4s:2'', ''f2d'', ''h:12'', ''i:3''])"
    by (simp only: r g)
  have b: "?toks \<noteq> [(''*'', None)]" by simp
  have c: "list_all (\<lambda>t. CHR '':'' \<notin> set (fst t) \<and> 0 < written_count (snd t)) ?toks"
    by (simp add: written_count_def)
  have e: "width ''id4s'' = 16" "width ''f2d'' = 20" "width ''h'' = 2" "width ''i'' = 4"
    by (simp_all add: width_def size_eval)
  from fixed_descriptor_size [OF a b c, THEN conjunct2, THEN conjunct2] r g e
  show ?thesis by (simp add: written_count_def)
qed

text \<open>
  Claim C9. The compiler leaves the caller's token list as it was. With \<^verbatim>\<open>expand\<close> set,
  line 148 assigns to \<^verbatim>\<open>formats[special_index]\<close>: the list the caller passed holds the
  resolved count after the call, and the list returned is that list.
\<close>

theorem expand_rewrites_callers_list:
  "gen_format_string lp64 [''i'', ''4s:*''] (Some 12) True
     = ([''i'', ''4s:2''], Inr (''i4s4s'', [''i'', ''4s:2'']))"
  by code_simp

text \<open>
  Claim C10. A token is the wildcard token whenever the last character of its count part
  is \<^verbatim>\<open>*\<close>: the loop stores its pattern and its index and appends the placeholder, or
  raises the error of line 112 when a wildcard is stored already, as it does for the
  count \<^verbatim>\<open>*\<close> itself; and the format that the compiler returns is the same for both.
\<close>

theorem trailing_star_is_wildcard:
  assumes "CHR '':'' \<notin> set p" and "CHR '':'' \<notin> set c" and "c \<noteq> []" and "last c = CHR ''*''"
  shows "scan_token pf st i (p @ CHR '':'' # c) =
           (if truthy (special_pattern st) then Inl MultipleWildcards
            else Inr (st\<lparr>fmt := fmt st @ ''{0}'',
                         special_pattern := Some p, special_index := Some i\<rparr>))
         \<and> scan_token pf st i (p @ CHR '':'' # c) = scan_token pf st i (p @ '':*'')
         \<and> map_sum id fst (snd (gen_format_string pf (xs @ (p @ CHR '':'' # c) # ys) fsize False))
           = map_sum id fst (snd (gen_format_string pf (xs @ (p @ '':*'') # ys) fsize False))"
proof -
  have split: "split_colon (p @ CHR '':'' # c) = [p, c]"
    and split': "split_colon (p @ '':*'') = [p, ''*'']"
    using assms(1,2) by (simp_all add: split_colon_append split_colon_plain)
  from split assms(3,4) have w: "is_wildcard (p @ CHR '':'' # c)"
    and pat: "pattern_of (p @ CHR '':'' # c) = p"
    by (simp_all add: is_wildcard_def pattern_of_def)
  from split' have w': "is_wildcard (p @ '':*'')" and pat': "pattern_of (p @ '':*'') = p"
    by (simp_all add: is_wildcard_def pattern_of_def)
  have tok: "scan_token pf s k (p @ CHR '':'' # c) = scan_token pf s k (p @ '':*'')" for s k
    by (simp add: scan_token_wildcard [OF w] scan_token_wildcard [OF w'] pat pat')
  have "scan pf scan_init 0 (xs @ (p @ CHR '':'' # c) # ys)
        = scan pf scan_init 0 (xs @ (p @ '':*'') # ys)"
    by (simp add: scan_append tok split: sum.splits)
  from same_scan_same_format [OF wildcard_not_fallback [OF w] wildcard_not_fallback [OF w'] this]
  show ?thesis
    by (simp add: scan_token_wildcard [OF w] scan_token_wildcard [OF w'] pat pat')
qed

theorem trailing_star_is_wildcard_witness:
  "CHR '':'' \<notin> set ''4s'' \<and> CHR '':'' \<notin> set ''3*'' \<and> ''3*'' \<noteq> [] \<and> last ''3*'' = CHR ''*''
   \<and> scan_token lp64 scan_init 1 ''4s:3*''
       = Inr \<lparr>fmt = ''{0}'', cumsize = 0, special_pattern = Some ''4s'', special_index = Some 1\<rparr>
   \<and> scan_token lp64 scan_init 1 ''4s:3*'' = scan_token lp64 scan_init 1 ''4s:*''
   \<and> map_sum id fst (snd (gen_format_string lp64 [''4s:3*'', ''2s:*''] None False))
       = Inl MultipleWildcards
   \<and> map_sum id fst (snd (gen_format_string lp64 [''i'', ''4s:3*''] (Some 12) False))
       = Inr ''i4s4s''"
proof -
  have a: "CHR '':'' \<notin> set ''4s''" and b: "CHR '':'' \<notin> set ''3*''" and c: "''3*'' \<noteq> []"
    and d: "last ''3*'' = CHR ''*''" by simp_all
  have e: "snd (gen_format_string lp64 [''4s:*'', ''2s:*''] None False) = Inl MultipleWildcards"
    "snd (gen_format_string lp64 [''i'', ''4s:*''] (Some 12) False) = Inr (''i4s4s'', [''i'', ''4s:*''])"
    by code_simp+
  from trailing_star_is_wildcard [OF a b c d, of lp64 scan_init 1 "[]" "[''2s:*'']" None]
    trailing_star_is_wildcard [OF a b c d, of lp64 scan_init 1 "[''i'']" "[]" "Some 12"] e
  show ?thesis by (simp add: scan_init_def truthy_def)
qed

section \<open>Properties of the converter\<close>

text \<open>
  Claim C1, as stated: for every format string and every buffer of the size that the
  format implies, converting to one byte order and then back to the other gives the
  buffer again. The values that \<^verbatim>\<open>struct.unpack\<close> returns do not hold every byte: a
  boolean \<^verbatim>\<open>?\<close> is true for every byte but 0 and is packed as 1, a pad byte \<^verbatim>\<open>x\<close> is
  dropped and packed as 0, a Pascal string \<^verbatim>\<open>p\<close> loses the bytes after its length. The
  one byte file 2 under the format \<^verbatim>\<open>?\<close> comes back as 1.
\<close>

theorem boolean_field_not_restored:
  "standard_size ''?'' = Inr (length [2 :: byte])
   \<and> convert lp64 [2] (Some ''big'') ''?'' = Inr [1]
   \<and> convert lp64 [1] (Some ''little'') ''?'' = Inr [1]"
  by code_simp

text \<open>
  Claim C1, amended: for every format string made of integer fields, characters and
  byte strings (\<^verbatim>\<open>b B h H i I l L q Q c s\<close>, with counts and white space) and every buffer
  of the size that the format implies, a conversion followed by a second conversion,
  under any two byte orders, gives the buffer again, and the conversions keep the
  length. Floats are left out of the statement.
\<close>

theorem plain_round_trip:
  assumes "plain_format f" and "standard_size f = Inr (length buffer)"
  shows "\<exists>mid. convert pf buffer bo f = Inr mid \<and> length mid = length buffer
               \<and> convert pf mid bo' f = Inr buffer"
proof -
  from convert_plain [OF assms, of pf bo] obtain fs where fs: "standard_fields f = Inr fs"
    and l: "length buffer = total_size fs"
    and c: "convert pf buffer bo f = Inr (flip_fields fs buffer)"
    by blast
  let ?mid = "flip_fields fs buffer"
  have lm: "length ?mid = length buffer" using l by (rule length_flip_fields)
  with assms(2) have "standard_size f = Inr (length ?mid)" by simp
  from convert_plain [OF assms(1) this, of pf bo'] fs
  have "convert pf ?mid bo' f = Inr (flip_fields fs ?mid)" by auto
  with flip_fields_twice [OF l] c lm show ?thesis by simp
qed

theorem plain_round_trip_witness:
  "plain_format ''h2sI''
   \<and> standard_size ''h2sI'' = Inr (length [1, 2, 3, 4, 5, 6, 7, 8 :: byte])
   \<and> (\<exists>mid. convert lp64 [1, 2, 3, 4, 5, 6, 7, 8] (Some ''little'') ''h2sI'' = Inr mid
            \<and> length mid = length [1, 2, 3, 4, 5, 6, 7, 8 :: byte]
            \<and> convert lp64 mid (Some ''big'') ''h2sI'' = Inr [1, 2, 3, 4, 5, 6, 7, 8])"
proof -
  have a: "plain_format ''h2sI''" by code_simp
  have b: "standard_size ''h2sI'' = Inr (length [1, 2, 3, 4, 5, 6, 7, 8 :: byte])" by code_simp
  from plain_round_trip [OF a b, of lp64 "Some ''little''" "Some ''big''"] a b
  show ?thesis by blast
qed

text \<open>
  Claim C2, as stated: when the source order is little the input is unpacked with the
  big-endian tag and the output is packed with the little-endian tag, and the other way
  round when the source order is big. In the code \<^verbatim>\<open>byte_order\<close> is the order to convert
  to, and the file is taken to be in the opposite order: for a little-endian source
  \<^verbatim>\<open>byte_order\<close> is \<^verbatim>\<open>big\<close>, the input is unpacked with \<^verbatim>\<open><\<close>, which reads the integers 1 and
  2 from their little-endian bytes, and the output is packed with \<^verbatim>\<open>>\<close>.
\<close>

theorem little_source_is_unpacked_little:
  "stage_formats ''big'' ''2i'' = (''<2i'', ''>2i'')
   \<and> struct_unpack lp64 ''<2i'' [1, 0, 0, 0, 2, 0, 0, 0] = Inr [VInt 1, VInt 2]
   \<and> convert lp64 [1, 0, 0, 0, 2, 0, 0, 0] (Some ''big'') ''2i'' = Inr [0, 0, 0, 1, 0, 0, 0, 2]"
proof -
  have fs: "standard_fields ''2i'' = Inr [(CHR ''i'', 4), (CHR ''i'', 4)]" by code_simp
  have u: "struct_unpack lp64 ''<2i'' [1, 0, 0, 0, 2, 0, 0, 0] = Inr [VInt 1, VInt 2]"
    by (simp add: struct_unpack_def compile_format_little fs unpack_field_def signed_code_def
          to_le_def Let_def)
  have p: "plain_format ''2i''" by code_simp
  have z: "standard_size ''2i'' = Inr (length [1, 0, 0, 0, 2, 0, 0, 0 :: byte])" by code_simp
  from convert_plain [OF p z, of lp64 "Some ''big''"] fs
  have "convert lp64 [1, 0, 0, 0, 2, 0, 0, 0] (Some ''big'') ''2i'' = Inr [0, 0, 0, 1, 0, 0, 0, 2]"
    by (simp add: opaque_code_def)
  with u show ?thesis by (simp add: stage_formats_def)
qed

text \<open>
  Claim C2, amended: the two stages use opposite tags, chosen by the order to convert
  to. When \<^verbatim>\<open>byte_order\<close> is \<^verbatim>\<open>little\<close> the input is unpacked with \<^verbatim>\<open>>\<close> and the output is
  packed with \<^verbatim>\<open><\<close>; for every other value the input is unpacked with \<^verbatim>\<open><\<close> and the output
  is packed with \<^verbatim>\<open>>\<close>; there is no path on which the two tags are the same. The net
  effect on an integer field, wherever it stands in the format, is that its bytes are
  reversed.
\<close>

theorem stages_flip_integers:
  assumes "integer_code c" and "standard_fields num = Inr [(c, length mid)]"
    and "convert pf s1 bo f1 = Inr o1" and "convert pf s2 bo f2 = Inr o2"
    and "f1 \<noteq> ''*''" and "f2 \<noteq> ''*''"
  shows "convert pf stream (Some ''little'') (f1 @ num @ f2)
           = (case struct_unpack pf (CHR ''>'' # f1 @ num @ f2) stream of
                Inl err \<Rightarrow> Inl err
              | Inr data \<Rightarrow> struct_pack pf (CHR ''<'' # f1 @ num @ f2) data)
         \<and> (b \<noteq> ''little'' \<longrightarrow>
              convert pf stream (Some b) (f1 @ num @ f2)
                = (case struct_unpack pf (CHR ''<'' # f1 @ num @ f2) stream of
                     Inl err \<Rightarrow> Inl err
                   | Inr data \<Rightarrow> struct_pack pf (CHR ''>'' # f1 @ num @ f2) data))
         \<and> convert pf (s1 @ mid @ s2) bo (f1 @ num @ f2) = Inr (o1 @ rev mid @ o2)"
proof -
  have n: "num \<noteq> ''*''"
  proof
    assume "num = ''*''"
    moreover have "standard_fields ''*'' = Inl StructError" by code_simp
    ultimately show False using assms(2) by simp
  qed
  have g: "f1 @ num @ f2 \<noteq> ''*''"
    using append_not_fallback [OF assms(5) append_not_fallback [OF n assms(6)]] .
  have pl: "list_all plain_field [(c, length mid)]"
    using assms(1) by (simp add: plain_field_def)
  from plain_fields_flip [OF pl _ stage_orders_differ [of pf bo], of mid]
  obtain vs where "unpack_fields (unpack_order pf bo) [(c, length mid)] mid = Inr vs"
    and "length vs = num_values [(c, length mid)]"
    and "pack_fields (pack_order pf bo) [(c, length mid)] vs = Inr (flip_fields [(c, length mid)] mid)"
    by auto
  moreover have "flip_fields [(c, length mid)] mid = rev mid"
    using integer_code_cases [OF assms(1)] by simp
  ultimately have one: "convert pf mid bo num = Inr (rev mid)"
    using assms(2) by (simp add: convert_fields [OF n])
  have "convert pf (mid @ s2) bo (num @ f2) = Inr (rev mid @ o2)"
    using convert_append [OF one assms(4) n assms(6)] .
  from convert_append [OF assms(3) this assms(5) append_not_fallback [OF n assms(6)]]
  have flip: "convert pf (s1 @ mid @ s2) bo (f1 @ num @ f2) = Inr (o1 @ rev mid @ o2)" .
  have little: "convert pf stream (Some ''little'') (f1 @ num @ f2)
           = (case struct_unpack pf (CHR ''>'' # f1 @ num @ f2) stream of
                Inl err \<Rightarrow> Inl err
              | Inr data \<Rightarrow> struct_pack pf (CHR ''<'' # f1 @ num @ f2) data)"
    using g by (simp add: convert_def stage_formats_def Let_def)
  have other: "convert pf stream (Some b) (f1 @ num @ f2)
                = (case struct_unpack pf (CHR ''<'' # f1 @ num @ f2) stream of
                     Inl err \<Rightarrow> Inl err
                   | Inr data \<Rightarrow> struct_pack pf (CHR ''>'' # f1 @ num @ f2) data)"
    if "b \<noteq> ''little''"
    using g that by (simp add: convert_def stage_formats_def Let_def)
  from flip little other show ?thesis by blast
qed

theorem stages_flip_integers_witness:
  "integer_code (CHR ''i'')
   \<and> standard_fields ''i'' = Inr [(CHR ''i'', length [1, 2, 3, 4 :: byte])]
   \<and> convert lp64 [2] (Some ''big'') ''?'' = Inr [1]
   \<and> convert lp64 [5, 6] (Some ''big'') ''2s'' = Inr [5, 6]
   \<and> convert lp64 ([2] @ [1, 2, 3, 4] @ [5, 6]) (Some ''big'') (''?'' @ ''i'' @ ''2s'')
       = Inr ([1] @ rev [1, 2, 3, 4] @ [5, 6])"
proof -
  have a: "integer_code (CHR ''i'')" by code_simp
  have b: "standard_fields ''i'' = Inr [(CHR ''i'', length [1, 2, 3, 4 :: byte])]" by code_simp
  have c: "convert lp64 [2] (Some ''big'') ''?'' = Inr [1]" by code_simp
  have d: "convert lp64 [5, 6] (Some ''big'') ''2s'' = Inr [5, 6]" by code_simp
  have e: "''?'' \<noteq> ''*''" and f: "''2s'' \<noteq> ''*''" by simp_all
  from stages_flip_integers [OF a b c d e f, of "[]" "''big''"] a b c d
  show ?thesis by simp
qed

text \<open>
  Claim C8. The converter copies every opaque field, a run of \<^verbatim>\<open>c\<close> or a byte string
  \<^verbatim>\<open>s\<close>, through unchanged, whatever the byte order and whatever the formats before and
  after it. The compiler returns the fallback descriptor \<^verbatim>\<open>["*"]\<close> as the format \<^verbatim>\<open>*\<close>,
  which \<^verbatim>\<open>convert\<close> turns into one \<^verbatim>\<open>c\<close> field for each byte of the file, and the
  conversion under that format returns the file as it is: no byte is moved.
\<close>

theorem opaque_fields_unchanged:
  assumes "opaque_format op" and "standard_size op = Inr (length mid)"
    and "convert pf s1 bo f1 = Inr o1" and "convert pf s2 bo f2 = Inr o2"
    and "f1 \<noteq> ''*''" and "f2 \<noteq> ''*''"
  shows "convert pf (s1 @ mid @ s2) bo (f1 @ op @ f2) = Inr (o1 @ mid @ o2)
         \<and> gen_format_string pf [''*''] fsize expand = ([''*''], Inr (''*'', [''*'']))
         \<and> standard_fields (py_repeat (int (length stream)) ''c'')
             = Inr (replicate (length stream) (CHR ''c'', 1))
         \<and> convert pf stream bo' ''*'' = Inr stream"
proof -
  have n: "op \<noteq> ''*''" using assms(1) opaque_is_plain plain_not_fallback by blast
  have "convert pf (mid @ s2) bo (op @ f2) = Inr (mid @ o2)"
    using convert_append [OF convert_opaque [OF assms(1,2)] assms(4) n assms(6)] .
  from convert_append [OF assms(3) this assms(5) append_not_fallback [OF n assms(6)]]
  show ?thesis
    by (simp add: gen_format_string_def py_repeat_char standard_fields_chars convert_fallback)
qed

theorem opaque_fields_unchanged_witness:
  "opaque_format ''3s'' \<and> standard_size ''3s'' = Inr (length [9, 8, 7 :: byte])
   \<and> convert lp64 [2] (Some ''big'') ''?'' = Inr [1]
   \<and> convert lp64 [5] (Some ''big'') ''x'' = Inr [0]
   \<and> convert lp64 ([2] @ [9, 8, 7] @ [5]) (Some ''big'') (''?'' @ ''3s'' @ ''x'')
       = Inr ([1] @ [9, 8, 7] @ [0])
   \<and> convert lp64 [1, 2, 3, 4, 5] (Some ''little'') ''*'' = Inr [1, 2, 3, 4, 5]"
proof -
  have a: "opaque_format ''3s''" by code_simp
  have b: "standard_size ''3s'' = Inr (length [9, 8, 7 :: byte])" by code_simp
  have c: "convert lp64 [2] (Some ''big'') ''?'' = Inr [1]" by code_simp
  have d: "convert lp64 [5] (Some ''big'') ''x'' = Inr [0]" by code_simp
  have e: "''?'' \<noteq> ''*''" and f: "''x'' \<noteq> ''*''" by simp_all
  from opaque_fields_unchanged [OF a b c d e f, of None False "[1, 2, 3, 4, 5]" "Some ''little''"]
    a b c d
  show ?thesis by simp
qed

end
